theory Spec2Isabelle
  imports Complex_Main
begin

section \<open>Strings and ordered dictionaries\<close>

text \<open>
  Python dictionaries keep insertion order and the code iterates over them, so they are
  association lists here: \<open>dict_set\<close> is the assignment \<^verbatim>\<open>d[k] = v\<close> (an existing key keeps its
  place, a new key goes last), \<open>dict_merge\<close> is \<^verbatim>\<open>{**a, **b}\<close> and \<open>fromkeys\<close> is
  \<^verbatim>\<open>list(dict.fromkeys(xs))\<close>, which keeps the first occurrence of every element.
\<close>

fun dict_set :: "('k \<times> 'v) list \<Rightarrow> 'k \<Rightarrow> 'v \<Rightarrow> ('k \<times> 'v) list" where
  "dict_set [] k v = [(k, v)]"
| "dict_set ((k', v') # d) k v = (if k' = k then (k, v) # d else (k', v') # dict_set d k v)"

definition dict_merge :: "('k \<times> 'v) list \<Rightarrow> ('k \<times> 'v) list \<Rightarrow> ('k \<times> 'v) list" where
  "dict_merge a b = foldl (\<lambda>d (k, v). dict_set d k v) a b"

definition fromkeys :: "'a list \<Rightarrow> 'a list" where
  "fromkeys xs = foldl (\<lambda>acc x. if x \<in> set acc then acc else acc @ [x]) [] xs"

definition newline :: char where
  "newline = CHR 0x0A"

text \<open>\<^verbatim>\<open>sep.join(xs)\<close> and \<^verbatim>\<open>s.split("\n")\<close>.\<close>

fun str_join :: "string \<Rightarrow> string list \<Rightarrow> string" where
  "str_join sep [] = []"
| "str_join sep [x] = x"
| "str_join sep (x # y # ys) = x @ sep @ str_join sep (y # ys)"

fun split_on :: "char \<Rightarrow> string \<Rightarrow> string list" where
  "split_on c [] = [[]]"
| "split_on c (x # xs) =
     (if x = c then [] # split_on c xs
      else (case split_on c xs of [] \<Rightarrow> [[x]] | h # t \<Rightarrow> (x # h) # t))"

text \<open>\<^verbatim>\<open>k.upper()\<close>, on the ASCII letters.\<close>

definition upper_char :: "char \<Rightarrow> char" where
  "upper_char c =
     (let n = (of_char c :: nat) in if 97 \<le> n \<and> n \<le> 122 then char_of (n - 32) else c)"

definition upper :: "string \<Rightarrow> string" where
  "upper s = map upper_char s"

section \<open>The persisted tables (database.py)\<close>

text \<open>
  One record per table row, with the columns the code reads or writes. The timestamp of a
  run is a natural number (the clock at insertion); \<open>source_engine\<close> and the timestamps of
  the other tables are written by column defaults and never read, so they are left out.
  Integer keys are AUTOINCREMENT: a new row gets one more than the largest key so far.
\<close>

record research_run =
  rr_id :: string
  rr_original_query :: string
  rr_classification :: string
  rr_primary_intent :: string
  rr_relationship :: string
  rr_difficulty_level :: string
  rr_final_answer :: "string option"
  rr_created_at :: nat

record sub_question =
  sq_id :: nat
  sq_research_run_id :: string
  sq_sub_question :: string
  sq_position :: nat

record search_result =
  sr_id :: nat
  sr_sub_question_id :: nat
  sr_search_query :: string
  sr_search_type :: string
  sr_url :: "string option"
  sr_title :: "string option"
  sr_snippet :: "string option"
  sr_score :: "rat option"

text \<open>
  \<open>summary_json\<close> holds \<^verbatim>\<open>json.dumps(summary)\<close> and is read back with \<^verbatim>\<open>json.loads\<close>; the
  column is modelled by the bullet list itself.
\<close>

record sub_question_summary =
  sm_id :: nat
  sm_sub_question_id :: nat
  sm_summary_json :: "string list"

record judge_result =
  overall_status :: string
  confidence_score :: rat
  coverage_assessment :: "(string \<times> string) list"
  detected_gaps :: "string list"
  recommended_follow_up :: "string list"
  termination_reasoning :: string

record judge_evaluation =
  je_id :: nat
  je_research_run_id :: string
  je_result :: judge_result

section \<open>External capabilities and the world\<close>

text \<open>
  Every call that leaves the process is an event of the trace; the banner that
  \<open>ResearchPipeline.run\<close> prints at the top of each pass is an event too.
\<close>

datatype event =
    RetrieveContext string
  | Classify string
  | Decompose string string
  | Search string nat
  | Summarize string string
  | Synthesize string string
  | Judge string string string
  | PassBanner nat
  | GenerateReport string
  | StoreVector string

record world =
  research_runs :: "research_run list"
  sub_questions :: "sub_question list"
  search_results :: "search_result list"
  sub_question_summaries :: "sub_question_summary list"
  judge_evaluations :: "judge_evaluation list"
  trace :: "event list"

datatype error =
    SearchError
  | CompletionError
  | JudgeError
  | IntegrityError
  | TypeError
  | ReportError

text \<open>The decomposition chain's parsed reply: an entry is a text or a dictionary of tagged texts.\<close>

datatype sq_entry = Plain string | Tagged "(string \<times> string) list"

record decomposed_query =
  dq_sub_questions :: "sq_entry list"
  dq_primary_intent :: string
  dq_relationship :: string
  dq_difficulty_level :: string

datatype search_item =
    ItemDict "rat option" "string option" "string option" "string option"
  | ItemOther

datatype search_response =
    RespDict "search_item list option"
  | RespList "search_item list"
  | RespOther

text \<open>
  The environment answers each external call; \<open>None\<close> is a raised exception. The first
  argument is the number of events so far, so the same request may be answered differently
  at different times. \<open>parse_summary\<close> stands for \<open>extract_summary_from_response\<close>, whose
  result depends on the JSON library only.
\<close>

record env =
  uuid4 :: "nat \<Rightarrow> string"
  current_timestamp :: "nat \<Rightarrow> nat"
  retrieve_context :: "nat \<Rightarrow> string \<Rightarrow> string option"
  classification_chain :: "nat \<Rightarrow> string \<Rightarrow> string option"
  decomposition_chain :: "nat \<Rightarrow> string \<Rightarrow> string \<Rightarrow> decomposed_query option"
  tavily_client_search :: "nat \<Rightarrow> string \<Rightarrow> nat \<Rightarrow> search_response option"
  analyzer_llm :: "nat \<Rightarrow> string \<Rightarrow> string \<Rightarrow> string option"
  parse_summary :: "string \<Rightarrow> string list"
  final_llm :: "nat \<Rightarrow> string \<Rightarrow> string \<Rightarrow> string option"
  judge_chain :: "nat \<Rightarrow> string \<Rightarrow> string \<Rightarrow> string \<Rightarrow> judge_result option"
  report_io :: "nat \<Rightarrow> string \<Rightarrow> bool"

definition emit :: "event \<Rightarrow> world \<Rightarrow> world" where
  "emit ev w = w\<lparr>trace := trace w @ [ev]\<rparr>"

definition next_id :: "nat list \<Rightarrow> nat" where
  "next_id ids = Suc (foldr max ids 0)"

section \<open>Decomposition resolver (query_classification_decomposition.py)\<close>

fun normalize_entry :: "sq_entry \<Rightarrow> string list" where
  "normalize_entry (Plain q) = [q]"
| "normalize_entry (Tagged kvs) = map (\<lambda>(k, v). ''['' @ upper k @ ''] '' @ v) kvs"

definition normalize_sub_questions :: "sq_entry list \<Rightarrow> string list" where
  "normalize_sub_questions sub_qs = concat (map normalize_entry sub_qs)"

text \<open>
  \<^verbatim>\<open>ORDER BY created_at DESC LIMIT 1\<close>: the row with the largest timestamp, the earliest
  such row of the table when several share it.
\<close>

fun pick_latest :: "research_run list \<Rightarrow> research_run option" where
  "pick_latest [] = None"
| "pick_latest (r # rs) =
     (case pick_latest rs of
        None \<Rightarrow> Some r
      | Some r' \<Rightarrow> if rr_created_at r < rr_created_at r' then Some r' else Some r)"

definition cached_run :: "world \<Rightarrow> string \<Rightarrow> research_run option" where
  "cached_run w query = pick_latest (filter (\<lambda>r. rr_original_query r = query) (research_runs w))"

text \<open>\<^verbatim>\<open>SELECT sub_question FROM sub_questions WHERE research_run_id = ? ORDER BY position\<close>\<close>

definition run_sub_questions :: "world \<Rightarrow> string \<Rightarrow> string list" where
  "run_sub_questions w rid =
     map sq_sub_question
       (sort_key sq_position (filter (\<lambda>r. sq_research_run_id r = rid) (sub_questions w)))"

record decomposition =
  dc_sub_questions :: "string list"
  dc_primary_intent :: string
  dc_relationship :: string
  dc_difficulty_level :: string

record decomposition_output =
  out_run_id :: string
  out_original_query :: string
  out_classification :: string
  out_decomposition :: decomposition

definition context_query :: "string \<Rightarrow> string \<Rightarrow> string" where
  "context_query query memory_context =
     query @ [newline, newline] @ ''PREVIOUS CONTEXT:'' @ [newline] @ memory_context"

text \<open>
  The first \<^verbatim>\<open>try\<close> block: the memory store is read, then the classification chain is
  called. The result is the category and the memory context, which stays unbound
  (\<open>None\<close>) when the memory store raised.
\<close>

definition classify_step :: "env \<Rightarrow> string \<Rightarrow> world \<Rightarrow> (string \<times> string option) \<times> world" where
  "classify_step e query w =
     (let w1 = emit (RetrieveContext query) w in
      case retrieve_context e (length (trace w)) query of
        None \<Rightarrow> ((''ambiguous'', None), w1)
      | Some memory_context \<Rightarrow>
          (let w2 = emit (Classify (context_query query memory_context)) w1 in
           case classification_chain e (length (trace w1)) (context_query query memory_context) of
             None \<Rightarrow> ((''ambiguous'', Some memory_context), w2)
           | Some category \<Rightarrow> ((category, Some memory_context), w2)))"

definition fallback_decomposition :: "string \<Rightarrow> decomposition" where
  "fallback_decomposition query =
     \<lparr>dc_sub_questions = [query],
      dc_primary_intent = ''Answer the query directly'',
      dc_relationship = ''parallel'',
      dc_difficulty_level = ''moderate''\<rparr>"

text \<open>
  The second \<^verbatim>\<open>try\<close> block. With the memory context unbound the f-string raises NameError
  before the chain is called; that exception and a failure of the chain both end in the
  fallback.
\<close>

definition decompose_step ::
  "env \<Rightarrow> string \<Rightarrow> string \<Rightarrow> string option \<Rightarrow> world \<Rightarrow> decomposition \<times> world" where
  "decompose_step e query query_type memory_context w =
     (case memory_context of
        None \<Rightarrow> (fallback_decomposition query, w)
      | Some ctx \<Rightarrow>
          (let w1 = emit (Decompose (context_query query ctx) query_type) w in
           case decomposition_chain e (length (trace w)) (context_query query ctx) query_type of
             None \<Rightarrow> (fallback_decomposition query, w1)
           | Some d \<Rightarrow>
               (\<lparr>dc_sub_questions = normalize_sub_questions (dq_sub_questions d),
                 dc_primary_intent = dq_primary_intent d,
                 dc_relationship = dq_relationship d,
                 dc_difficulty_level = dq_difficulty_level d\<rparr>, w1)))"

definition insert_sub_question :: "string \<Rightarrow> world \<Rightarrow> string \<times> nat \<Rightarrow> world" where
  "insert_sub_question rid w p =
     w\<lparr>sub_questions := sub_questions w @
         [\<lparr>sq_id = next_id (map sq_id (sub_questions w)),
           sq_research_run_id = rid,
           sq_sub_question = fst p,
           sq_position = snd p\<rparr>]\<rparr>"

definition insert_sub_questions :: "string \<Rightarrow> string list \<Rightarrow> world \<Rightarrow> world" where
  "insert_sub_questions rid qs w =
     foldl (insert_sub_question rid) w (zip qs [1 ..< Suc (length qs)])"

definition research_decomposition_pipeline ::
  "env \<Rightarrow> string \<Rightarrow> world \<Rightarrow> (error + decomposition_output) \<times> world" where
  "research_decomposition_pipeline e query w =
     (let run_id = uuid4 e (length (trace w)) in
      case cached_run w query of
        Some cached \<Rightarrow>
          (Inr \<lparr>out_run_id = rr_id cached,
                out_original_query = query,
                out_classification = rr_classification cached,
                out_decomposition =
                  \<lparr>dc_sub_questions = run_sub_questions w (rr_id cached),
                   dc_primary_intent = rr_primary_intent cached,
                   dc_relationship = rr_relationship cached,
                   dc_difficulty_level = rr_difficulty_level cached\<rparr>\<rparr>, w)
      | None \<Rightarrow>
          (let ((query_type, memory_context), w1) = classify_step e query w;
               (decomposition_result, w2) = decompose_step e query query_type memory_context w1
           in if run_id \<in> set (map rr_id (research_runs w2)) then (Inl IntegrityError, w2)
              else
                (let w3 = w2\<lparr>research_runs := research_runs w2 @
                            [\<lparr>rr_id = run_id,
                              rr_original_query = query,
                              rr_classification = query_type,
                              rr_primary_intent = dc_primary_intent decomposition_result,
                              rr_relationship = dc_relationship decomposition_result,
                              rr_difficulty_level = dc_difficulty_level decomposition_result,
                              rr_final_answer = None,
                              rr_created_at = current_timestamp e (length (trace w2))\<rparr>]\<rparr>;
                     w4 = insert_sub_questions run_id (dc_sub_questions decomposition_result) w3
                 in (Inr \<lparr>out_run_id = run_id,
                          out_original_query = query,
                          out_classification = query_type,
                          out_decomposition = decomposition_result\<rparr>, w4))))"

section \<open>Evidence gathering, summaries and synthesis (query_search.py)\<close>

record evidence =
  urls :: "string list"
  snippets :: string

text \<open>
  The body of the loop over one response in \<open>tavily_search\<close>: an item contributes when
  it is a dictionary whose score (0 when absent) exceeds 0.5.
\<close>

fun response_results :: "search_response \<Rightarrow> search_item list" where
  "response_results (RespDict (Some results)) = results"
| "response_results (RespDict None) = []"
| "response_results (RespList results) = results"
| "response_results RespOther = []"

fun item_urls :: "search_item \<Rightarrow> string list" where
  "item_urls (ItemDict score url content title) =
     (if (case score of None \<Rightarrow> 0 | Some s \<Rightarrow> s) > 1 / 2
      then (case url of None \<Rightarrow> [] | Some u \<Rightarrow> if u = [] then [] else [u])
      else [])"
| "item_urls ItemOther = []"

fun item_snippets :: "search_item \<Rightarrow> string list" where
  "item_snippets (ItemDict score url content title) =
     (if (case score of None \<Rightarrow> 0 | Some s \<Rightarrow> s) > 1 / 2
      then [''- '' @ (case title of None \<Rightarrow> [] | Some t \<Rightarrow> t) @ '' | '' @
              (case content of None \<Rightarrow> [] | Some c \<Rightarrow> c)]
      else [])"
| "item_snippets ItemOther = []"

text \<open>
  \<^verbatim>\<open>list(set(urls))\<close> lists the distinct URLs in an order Python does not fix; \<open>remdups\<close>
  is one such order.
\<close>

definition response_evidence :: "search_response \<Rightarrow> evidence" where
  "response_evidence r =
     \<lparr>urls = remdups (concat (map item_urls (response_results r))),
      snippets = str_join [newline] (concat (map item_snippets (response_results r)))\<rparr>"

text \<open>
  \<^verbatim>\<open>asyncio.gather\<close> starts one search per query; the replies come back in the order of the
  queries, and one raised exception makes the whole call raise.
\<close>

fun gather_searches ::
  "env \<Rightarrow> nat \<Rightarrow> string list \<Rightarrow> world \<Rightarrow> search_response option list \<times> world" where
  "gather_searches e max_results [] w = ([], w)"
| "gather_searches e max_results (q # qs) w =
     (let r = tavily_client_search e (length (trace w)) q max_results;
          (rs, w') = gather_searches e max_results qs (emit (Search q max_results) w)
      in (r # rs, w'))"

definition tavily_search ::
  "env \<Rightarrow> string list \<Rightarrow> string \<Rightarrow> world \<Rightarrow> (error + (string \<times> evidence) list) \<times> world" where
  "tavily_search e queries search_type w =
     (let max_results = (if search_type = ''depth'' then 5 else 10);
          (responses, w') = gather_searches e max_results queries w
      in case those responses of
           None \<Rightarrow> (Inl SearchError, w')
         | Some rs \<Rightarrow>
             (Inr (foldl (\<lambda>d (q, r). dict_set d q (response_evidence r)) [] (zip queries rs)), w'))"

text \<open>
  The dictionary comprehension that maps the question texts of a run to row ids: a later
  row with the same text replaces an earlier one.
\<close>

definition sub_q_map :: "world \<Rightarrow> string \<Rightarrow> string \<Rightarrow> nat option" where
  "sub_q_map w run_id =
     map_of (rev (map (\<lambda>r. (sq_sub_question r, sq_id r))
                    (filter (\<lambda>r. sq_research_run_id r = run_id) (sub_questions w))))"

text \<open>\<^verbatim>\<open>SELECT url, snippet FROM search_results WHERE sub_question_id = ? AND search_type = ?\<close>\<close>

definition stored_rows :: "world \<Rightarrow> nat \<Rightarrow> string \<Rightarrow> search_result list" where
  "stored_rows w sid search_type =
     filter (\<lambda>r. sr_sub_question_id r = sid \<and> sr_search_type r = search_type) (search_results w)"

definition truthy :: "string option \<Rightarrow> bool" where
  "truthy x = (case x of None \<Rightarrow> False | Some s \<Rightarrow> s \<noteq> [])"

text \<open>
  The evidence assembled from stored rows: the set of truthy URLs (listed here in the order
  \<open>remdups\<close> gives) and the truthy snippets joined by newlines.
\<close>

definition cached_evidence :: "search_result list \<Rightarrow> evidence" where
  "cached_evidence rows =
     \<lparr>urls = remdups (map (\<lambda>r. the (sr_url r)) (filter (\<lambda>r. truthy (sr_url r)) rows)),
      snippets = str_join [newline]
                   (map (\<lambda>r. the (sr_snippet r)) (filter (\<lambda>r. truthy (sr_snippet r)) rows))\<rparr>"

text \<open>
  The cache check loop of \<open>run_pipeline\<close>, with its two accumulators. A question whose
  id is missing or falsy goes to \<open>missing_questions\<close>, and so does one with no stored row.
\<close>

fun cache_check ::
  "world \<Rightarrow> (string \<Rightarrow> nat option) \<Rightarrow> string list \<Rightarrow> (string \<times> evidence) list \<Rightarrow> string list \<Rightarrow>
     (string \<times> evidence) list \<times> string list" where
  "cache_check w m [] cached_search_results missing_questions =
     (cached_search_results, missing_questions)"
| "cache_check w m (question # qs) cached_search_results missing_questions =
     (case m question of
        None \<Rightarrow> cache_check w m qs cached_search_results (missing_questions @ [question])
      | Some sub_question_id \<Rightarrow>
          if sub_question_id = 0
          then cache_check w m qs cached_search_results (missing_questions @ [question])
          else if stored_rows w sub_question_id ''depth'' \<noteq> []
          then cache_check w m qs
                 (dict_set cached_search_results question
                    (cached_evidence (stored_rows w sub_question_id ''depth'')))
                 missing_questions
          else cache_check w m qs cached_search_results (missing_questions @ [question]))"

definition insert_search_result ::
  "nat \<Rightarrow> string \<Rightarrow> string option \<Rightarrow> string option \<Rightarrow> world \<Rightarrow> world" where
  "insert_search_result sid question url snippet w =
     w\<lparr>search_results := search_results w @
         [\<lparr>sr_id = next_id (map sr_id (search_results w)),
           sr_sub_question_id = sid,
           sr_search_query = question,
           sr_search_type = ''depth'',
           sr_url = url,
           sr_title = None,
           sr_snippet = snippet,
           sr_score = None\<rparr>]\<rparr>"

text \<open>
  The loop that stores fresh results: a question without an id is skipped; otherwise one
  row per non-empty line of the snippets, then one row per URL.
\<close>

fun persist_fresh :: "(string \<Rightarrow> nat option) \<Rightarrow> (string \<times> evidence) list \<Rightarrow> world \<Rightarrow> world" where
  "persist_fresh m [] w = w"
| "persist_fresh m ((question, data) # rest) w =
     (case m question of
        None \<Rightarrow> persist_fresh m rest w
      | Some sub_question_id \<Rightarrow>
          if sub_question_id = 0 then persist_fresh m rest w
          else
            (let w1 = foldl (\<lambda>w snippet_block.
                         insert_search_result sub_question_id question None (Some snippet_block) w)
                       w (filter (\<lambda>s. s \<noteq> []) (split_on newline (snippets data)));
                 w2 = foldl (\<lambda>w url.
                         insert_search_result sub_question_id question (Some url) None w)
                       w1 (urls data)
             in persist_fresh m rest w2))"

text \<open>
  Lines 257 to 372 of \<open>run_pipeline\<close>: the id map, the cache check, the search of the
  missing questions, the merged result and the rows stored for the fresh results.
\<close>

definition gather_evidence ::
  "env \<Rightarrow> string list \<Rightarrow> string list \<Rightarrow> string \<Rightarrow> world \<Rightarrow>
     (error + (string \<times> evidence) list) \<times> world" where
  "gather_evidence e base_sub_questions follow_up_questions run_id w =
     (let m = sub_q_map w run_id;
          all_questions = fromkeys (base_sub_questions @ follow_up_questions);
          (cached_search_results, missing_questions) = cache_check w m all_questions [] []
      in case (if missing_questions \<noteq> [] then tavily_search e missing_questions ''depth'' w
               else (Inr [], w)) of
           (Inl err, w1) \<Rightarrow> (Inl err, w1)
         | (Inr fresh_results, w1) \<Rightarrow>
             (Inr (dict_merge cached_search_results fresh_results),
              persist_fresh m fresh_results w1))"

record analysis =
  summary :: "string list"
  an_urls :: "string list"

text \<open>
  \<open>analyze_sub_questions\<close>: the row is looked up by the question text alone, and
  \<^verbatim>\<open>fetchone\<close> takes the first row of the table that matches.
\<close>

definition find_sub_question :: "world \<Rightarrow> string \<Rightarrow> sub_question option" where
  "find_sub_question w question = find (\<lambda>r. sq_sub_question r = question) (sub_questions w)"

definition find_summary :: "world \<Rightarrow> nat \<Rightarrow> sub_question_summary option" where
  "find_summary w sid = find (\<lambda>s. sm_sub_question_id s = sid) (sub_question_summaries w)"

definition insert_summary :: "nat \<Rightarrow> string list \<Rightarrow> world \<Rightarrow> world" where
  "insert_summary sid bullets w =
     w\<lparr>sub_question_summaries := sub_question_summaries w @
         [\<lparr>sm_id = next_id (map sm_id (sub_question_summaries w)),
           sm_sub_question_id = sid,
           sm_summary_json = bullets\<rparr>]\<rparr>"

fun analyze_loop ::
  "env \<Rightarrow> (string \<times> evidence) list \<Rightarrow> (string \<times> analysis) list \<Rightarrow> world \<Rightarrow>
     (error + (string \<times> analysis) list) \<times> world" where
  "analyze_loop e [] analyzed w = (Inr analyzed, w)"
| "analyze_loop e ((question, data) # rest) analyzed w =
     (case find_sub_question w question of
        None \<Rightarrow> analyze_loop e rest analyzed w
      | Some row \<Rightarrow>
          (case find_summary w (sq_id row) of
             Some cached \<Rightarrow>
               analyze_loop e rest
                 (dict_set analyzed question
                    \<lparr>summary = sm_summary_json cached, an_urls = urls data\<rparr>) w
           | None \<Rightarrow>
               (let w1 = emit (Summarize question (snippets data)) w in
                case analyzer_llm e (length (trace w)) question (snippets data) of
                  None \<Rightarrow> (Inl CompletionError, w1)
                | Some content \<Rightarrow>
                    analyze_loop e rest
                      (dict_set analyzed question
                         \<lparr>summary = parse_summary e content, an_urls = urls data\<rparr>)
                      (insert_summary (sq_id row) (parse_summary e content) w1))))"

definition analyze_sub_questions ::
  "env \<Rightarrow> (string \<times> evidence) list \<Rightarrow> world \<Rightarrow> (error + (string \<times> analysis) list) \<times> world" where
  "analyze_sub_questions e search_res w = analyze_loop e search_res [] w"

definition summaries_text :: "(string \<times> analysis) list \<Rightarrow> string" where
  "summaries_text analyzed =
     str_join [newline, newline]
       (map (\<lambda>(q, data). q @ [newline] @ str_join [newline] (map (\<lambda>b. ''  - '' @ b) (summary data)))
          analyzed)"

definition generate_final_answer ::
  "env \<Rightarrow> string \<Rightarrow> (string \<times> analysis) list \<Rightarrow> world \<Rightarrow> (error + string) \<times> world" where
  "generate_final_answer e original_query analyzed w =
     (let w1 = emit (Synthesize original_query (summaries_text analyzed)) w in
      case final_llm e (length (trace w)) original_query (summaries_text analyzed) of
        None \<Rightarrow> (Inl CompletionError, w1)
      | Some content \<Rightarrow> (Inr content, w1))"

definition run_pipeline ::
  "env \<Rightarrow> string \<Rightarrow> string list \<Rightarrow> string list \<Rightarrow> string \<Rightarrow> world \<Rightarrow> (error + string) \<times> world" where
  "run_pipeline e original_query base_sub_questions follow_up_questions run_id w =
     (case gather_evidence e base_sub_questions follow_up_questions run_id w of
        (Inl err, w1) \<Rightarrow> (Inl err, w1)
      | (Inr search_res, w1) \<Rightarrow>
          (case analyze_sub_questions e search_res w1 of
             (Inl err, w2) \<Rightarrow> (Inl err, w2)
           | (Inr analyzed, w2) \<Rightarrow> generate_final_answer e original_query analyzed w2))"

section \<open>Judge wrapper (llm_as_a_judge.py)\<close>

definition run_judge ::
  "env \<Rightarrow> string \<Rightarrow> string list \<Rightarrow> string \<Rightarrow> string \<Rightarrow> world \<Rightarrow> (error + judge_result) \<times> world" where
  "run_judge e original_query sub_qs answer run_id w =
     (let block = str_join [newline] (map (\<lambda>q. ''- '' @ q) sub_qs);
          w1 = emit (Judge original_query block answer) w
      in case judge_chain e (length (trace w)) original_query block answer of
           None \<Rightarrow> (Inl JudgeError, w1)
         | Some result \<Rightarrow>
             (Inr result,
              w1\<lparr>judge_evaluations := judge_evaluations w1 @
                   [\<lparr>je_id = next_id (map je_id (judge_evaluations w1)),
                     je_research_run_id = run_id,
                     je_result = result\<rparr>]\<rparr>))"

section \<open>Multi-pass orchestrator (pipeline.py)\<close>

definition MAX_PASSES :: nat where
  "MAX_PASSES = 3"

text \<open>Scores are rational numbers here; the code compares floating-point numbers.\<close>

definition CONFIDENCE_THRESHOLD :: rat where
  "CONFIDENCE_THRESHOLD = 85 / 100"

text \<open>The three variables that \<open>ResearchPipeline.run\<close> carries from pass to pass.\<close>

record loop_state =
  follow_up_questions :: "string list"
  final_answer :: "string option"
  judge_res :: "judge_result option"

definition initial_state :: loop_state where
  "initial_state = \<lparr>follow_up_questions = [], final_answer = None, judge_res = None\<rparr>"

text \<open>
  \<^verbatim>\<open>[q for q in judge_result["recommended_follow_up"] if q not in follow_up_questions]\<close>
  and the \<^verbatim>\<open>extend\<close> that follows it.
\<close>

definition new_followups :: "string list \<Rightarrow> string list \<Rightarrow> string list" where
  "new_followups recommended follow_ups = filter (\<lambda>q. q \<notin> set follow_ups) recommended"

definition extend_followups :: "string list \<Rightarrow> string list \<Rightarrow> string list" where
  "extend_followups follow_ups recommended = follow_ups @ new_followups recommended follow_ups"

text \<open>The questions of a pass: the base questions on pass 0, the follow-ups afterwards.\<close>

definition pass_questions :: "nat \<Rightarrow> string list \<Rightarrow> string list \<Rightarrow> string list \<times> string list" where
  "pass_questions pass_idx base_sub_questions follow_ups =
     (if pass_idx = 0 then (base_sub_questions, []) else ([], follow_ups))"

text \<open>
  The main loop over \<^verbatim>\<open>range(MAX_PASSES)\<close>. An exception of \<open>run_pipeline\<close> or of
  \<open>run_judge\<close> leaves the loop and the function; \<^verbatim>\<open>break\<close> leaves the loop with the
  answer and the evaluation of the pass.
\<close>

fun pass_loop ::
  "env \<Rightarrow> string \<Rightarrow> string \<Rightarrow> string list \<Rightarrow> nat list \<Rightarrow> loop_state \<Rightarrow> world \<Rightarrow>
     (error + loop_state) \<times> world" where
  "pass_loop e query run_id base_sub_questions [] st w = (Inr st, w)"
| "pass_loop e query run_id base_sub_questions (pass_idx # rest) st w =
     (let w0 = emit (PassBanner pass_idx) w;
          (base_qs, follow_qs) = pass_questions pass_idx base_sub_questions (follow_up_questions st)
      in case run_pipeline e query base_qs follow_qs run_id w0 of
           (Inl err, w1) \<Rightarrow> (Inl err, w1)
         | (Inr answer, w1) \<Rightarrow>
             (case run_judge e query (base_sub_questions @ follow_up_questions st) answer run_id w1 of
                (Inl err, w2) \<Rightarrow> (Inl err, w2)
              | (Inr judge_result, w2) \<Rightarrow>
                  if confidence_score judge_result \<ge> CONFIDENCE_THRESHOLD
                  then (Inr (st\<lparr>final_answer := Some answer, judge_res := Some judge_result\<rparr>), w2)
                  else pass_loop e query run_id base_sub_questions rest
                         (st\<lparr>follow_up_questions :=
                               extend_followups (follow_up_questions st)
                                 (recommended_follow_up judge_result),
                             final_answer := Some answer,
                             judge_res := Some judge_result\<rparr>) w2))"

text \<open>
  \<^verbatim>\<open>if final_answer: UPDATE research_runs SET final_answer = ? WHERE id = ?\<close>
\<close>

definition save_final_answer :: "string \<Rightarrow> string option \<Rightarrow> world \<Rightarrow> world" where
  "save_final_answer run_id answer w =
     (if truthy answer
      then w\<lparr>research_runs :=
               map (\<lambda>r. if rr_id r = run_id then r\<lparr>rr_final_answer := answer\<rparr> else r)
                 (research_runs w)\<rparr>
      else w)"

record run_output =
  ro_query :: string
  ro_run_id :: string
  ro_final_answer :: "string option"
  ro_judge_evaluation :: judge_result

text \<open>
  \<open>ResearchPipeline.run\<close>. The report renderer and the vector store only read the tables;
  each is an event that the environment lets succeed or fail.
\<close>

definition run :: "env \<Rightarrow> string \<Rightarrow> world \<Rightarrow> (error + run_output) \<times> world" where
  "run e query w =
     (case research_decomposition_pipeline e query w of
        (Inl err, w1) \<Rightarrow> (Inl err, w1)
      | (Inr decomposition_result, w1) \<Rightarrow>
          (let run_id = out_run_id decomposition_result;
               base_sub_questions = dc_sub_questions (out_decomposition decomposition_result)
           in case pass_loop e query run_id base_sub_questions [0 ..< MAX_PASSES] initial_state w1 of
                (Inl err, w2) \<Rightarrow> (Inl err, w2)
              | (Inr st, w2) \<Rightarrow>
                  (let w3 = save_final_answer run_id (final_answer st) w2 in
                   case judge_res st of
                     None \<Rightarrow> (Inl TypeError, w3)
                   | Some judge_result \<Rightarrow>
                       (let w4 = emit (GenerateReport run_id) w3 in
                        if \<not> report_io e (length (trace w3)) run_id then (Inl ReportError, w4)
                        else
                          (let w5 = emit (StoreVector run_id) w4 in
                           if \<not> report_io e (length (trace w4)) run_id then (Inl ReportError, w5)
                           else (Inr \<lparr>ro_query = query,
                                      ro_run_id = run_id,
                                      ro_final_answer = final_answer st,
                                      ro_judge_evaluation = judge_result\<rparr>, w5))))))"

section \<open>Trace observations and sample environments\<close>

definition new_events :: "world \<Rightarrow> world \<Rightarrow> event list" where
  "new_events w w' = drop (length (trace w)) (trace w')"

fun is_search_for :: "string \<Rightarrow> event \<Rightarrow> bool" where
  "is_search_for q (Search q' n) = (q' = q)"
| "is_search_for q ev = False"

fun is_banner :: "event \<Rightarrow> bool" where
  "is_banner (PassBanner n) = True"
| "is_banner ev = False"

text \<open>
  A cache hit of the evidence cache: the id map resolves the question to a truthy id that
  has a stored row of mode "depth". \<open>cache_hit\<close> takes the id map of a run.
\<close>

definition hit_with :: "world \<Rightarrow> (string \<Rightarrow> nat option) \<Rightarrow> string \<Rightarrow> bool" where
  "hit_with w m q =
     (case m q of
        None \<Rightarrow> False
      | Some sid \<Rightarrow> sid \<noteq> 0 \<and> stored_rows w sid ''depth'' \<noteq> [])"

definition cache_hit :: "world \<Rightarrow> string \<Rightarrow> string \<Rightarrow> bool" where
  "cache_hit w run_id q = hit_with w (sub_q_map w run_id) q"

text \<open>No external capability raises; the judge never reaches the threshold.\<close>

definition never_fails :: "env \<Rightarrow> bool" where
  "never_fails e =
     ((\<forall>n q k. tavily_client_search e n q k \<noteq> None) \<and>
      (\<forall>n q s. analyzer_llm e n q s \<noteq> None) \<and>
      (\<forall>n q s. final_llm e n q s \<noteq> None) \<and>
      (\<forall>n q b a. judge_chain e n q b a \<noteq> None))"

definition never_confident :: "env \<Rightarrow> bool" where
  "never_confident e =
     (\<forall>n q b a jr. judge_chain e n q b a = Some jr \<longrightarrow> confidence_score jr < CONFIDENCE_THRESHOLD)"

definition empty_world :: world where
  "empty_world =
     \<lparr>research_runs = [], sub_questions = [], search_results = [],
      sub_question_summaries = [], judge_evaluations = [], trace = []\<rparr>"

definition sample_judgement :: "rat \<Rightarrow> string list \<Rightarrow> judge_result" where
  "sample_judgement c follow =
     \<lparr>overall_status = ''NEEDS_MORE_RESEARCH'', confidence_score = c,
      coverage_assessment = [], detected_gaps = [], recommended_follow_up = follow,
      termination_reasoning = []\<rparr>"

text \<open>
  An environment in which every capability answers: the decomposition yields two
  sub-questions, every search yields one accepted item, and the judge returns the given
  confidence and follow-up list.
\<close>

definition sample_env :: "rat \<Rightarrow> string list \<Rightarrow> env" where
  "sample_env c follow =
     \<lparr>uuid4 = (\<lambda>n. ''run-'' @ replicate n (CHR ''i'')),
      current_timestamp = (\<lambda>n. n),
      retrieve_context = (\<lambda>n q. Some ''ctx''),
      classification_chain = (\<lambda>n q. Some ''factual''),
      decomposition_chain = (\<lambda>n q t. Some
         \<lparr>dq_sub_questions = [Plain ''a?'', Tagged [(''factual'', ''b?'')]],
          dq_primary_intent = ''learn'', dq_relationship = ''parallel'',
          dq_difficulty_level = ''simple''\<rparr>),
      tavily_client_search = (\<lambda>n q k. Some (RespDict (Some
         [ItemDict (Some (9 / 10)) (Some (''http://'' @ q)) (Some ''text'') (Some ''title'')]))),
      analyzer_llm = (\<lambda>n q s. Some (''summary of '' @ s)),
      parse_summary = (\<lambda>s. [s]),
      final_llm = (\<lambda>n q s. Some ''answer''),
      judge_chain = (\<lambda>n q b a. Some (sample_judgement c follow)),
      report_io = (\<lambda>n r. True)\<rparr>"

text \<open>
  When the two \<^verbatim>\<open>try\<close> blocks of the resolver end in their \<^verbatim>\<open>except\<close> branch: the first when
  the memory store or the classification chain raises, the second when the memory context
  is unbound or the decomposition chain raises.
\<close>

definition classification_failed :: "env \<Rightarrow> string \<Rightarrow> world \<Rightarrow> bool" where
  "classification_failed e query w =
     (case retrieve_context e (length (trace w)) query of
        None \<Rightarrow> True
      | Some ctx \<Rightarrow>
          classification_chain e (Suc (length (trace w))) (context_query query ctx) = None)"

definition decomposition_failed :: "env \<Rightarrow> string \<Rightarrow> world \<Rightarrow> bool" where
  "decomposition_failed e query w =
     (case retrieve_context e (length (trace w)) query of
        None \<Rightarrow> True
      | Some ctx \<Rightarrow>
          decomposition_chain e (Suc (Suc (length (trace w)))) (context_query query ctx)
            (case classification_chain e (Suc (length (trace w))) (context_query query ctx) of
               None \<Rightarrow> ''ambiguous''
             | Some category \<Rightarrow> category) = None)"

text \<open>
  Two variants of the sample environment: the classification chain raises and the
  decomposition chain returns no sub-question; both chains raise.
\<close>

definition empty_decomposition_env :: env where
  "empty_decomposition_env =
     (sample_env 1 [])
       \<lparr>classification_chain := (\<lambda>n q. None),
        decomposition_chain := (\<lambda>n q t. Some
          \<lparr>dq_sub_questions = [], dq_primary_intent = ''learn'',
           dq_relationship = ''parallel'', dq_difficulty_level = ''simple''\<rparr>)\<rparr>"

definition failing_chains_env :: env where
  "failing_chains_env =
     (sample_env 1 [])
       \<lparr>classification_chain := (\<lambda>n q. None), decomposition_chain := (\<lambda>n q t. None)\<rparr>"

text \<open>The synthesis returns an empty text.\<close>

definition empty_answer_env :: env where
  "empty_answer_env = (sample_env 1 [])\<lparr>final_llm := (\<lambda>n q s. Some [])\<rparr>"

text \<open>
  A world with one run, its sub-question "a?" and one stored search result for it.
\<close>

definition stored_world :: world where
  "stored_world =
     \<lparr>research_runs =
        [\<lparr>rr_id = ''r'', rr_original_query = ''q'', rr_classification = ''factual'',
          rr_primary_intent = ''learn'', rr_relationship = ''parallel'',
          rr_difficulty_level = ''simple'', rr_final_answer = None, rr_created_at = 0\<rparr>],
      sub_questions =
        [\<lparr>sq_id = 1, sq_research_run_id = ''r'', sq_sub_question = ''a?'', sq_position = 1\<rparr>],
      search_results =
        [\<lparr>sr_id = 1, sr_sub_question_id = 1, sr_search_query = ''a?'',
          sr_search_type = ''depth'', sr_url = Some ''http://a'', sr_title = None,
          sr_snippet = None, sr_score = None\<rparr>,
         \<lparr>sr_id = 2, sr_sub_question_id = 1, sr_search_query = ''a?'',
          sr_search_type = ''depth'', sr_url = None, sr_title = None,
          sr_snippet = Some ''- title | text'', sr_score = None\<rparr>],
      sub_question_summaries = [], judge_evaluations = [], trace = []\<rparr>"

text \<open>Two runs that each have a sub-question with the text "a?".\<close>

definition shared_world :: world where
  "shared_world =
     \<lparr>research_runs =
        [\<lparr>rr_id = ''r1'', rr_original_query = ''q1'', rr_classification = ''factual'',
          rr_primary_intent = ''learn'', rr_relationship = ''parallel'',
          rr_difficulty_level = ''simple'', rr_final_answer = None, rr_created_at = 0\<rparr>,
         \<lparr>rr_id = ''r2'', rr_original_query = ''q2'', rr_classification = ''factual'',
          rr_primary_intent = ''learn'', rr_relationship = ''parallel'',
          rr_difficulty_level = ''simple'', rr_final_answer = None, rr_created_at = 1\<rparr>],
      sub_questions =
        [\<lparr>sq_id = 1, sq_research_run_id = ''r1'', sq_sub_question = ''a?'', sq_position = 1\<rparr>,
         \<lparr>sq_id = 2, sq_research_run_id = ''r2'', sq_sub_question = ''a?'', sq_position = 1\<rparr>],
      search_results = [], sub_question_summaries = [], judge_evaluations = [], trace = []\<rparr>"

section \<open>Properties of the decomposition resolver\<close>

lemma pick_latest_None: "pick_latest rs = None \<longleftrightarrow> rs = []"
  by (cases rs) (auto split: option.splits)

lemma pick_latest_single: "pick_latest [r] = Some r"
  by simp

lemma classify_step_tables:
  "classify_step e query w = (res, w') \<Longrightarrow>
     research_runs w' = research_runs w \<and> sub_questions w' = sub_questions w \<and>
     search_results w' = search_results w \<and>
     sub_question_summaries w' = sub_question_summaries w \<and>
     judge_evaluations w' = judge_evaluations w"
  by (auto simp: classify_step_def emit_def Let_def split: option.splits)

lemma decompose_step_tables:
  "decompose_step e query qt ctx w = (res, w') \<Longrightarrow>
     research_runs w' = research_runs w \<and> sub_questions w' = sub_questions w \<and>
     search_results w' = search_results w \<and>
     sub_question_summaries w' = sub_question_summaries w \<and>
     judge_evaluations w' = judge_evaluations w"
  by (auto simp: decompose_step_def emit_def Let_def split: option.splits)

lemma foldl_insert_sub_question:
  "\<exists>rows. sub_questions (foldl (insert_sub_question rid) w ps) = sub_questions w @ rows \<and>
     map sq_sub_question rows = map fst ps \<and> map sq_position rows = map snd ps \<and>
     (\<forall>r \<in> set rows. sq_research_run_id r = rid)"
proof (induction ps arbitrary: w)
  case Nil
  show ?case by simp
next
  case (Cons p ps)
  obtain rows where rows:
    "sub_questions (foldl (insert_sub_question rid) (insert_sub_question rid w p) ps) =
       sub_questions (insert_sub_question rid w p) @ rows"
    "map sq_sub_question rows = map fst ps" "map sq_position rows = map snd ps"
    "\<forall>r \<in> set rows. sq_research_run_id r = rid"
    using Cons.IH [of "insert_sub_question rid w p"] by blast
  let ?r = "\<lparr>sq_id = next_id (map sq_id (sub_questions w)), sq_research_run_id = rid,
             sq_sub_question = fst p, sq_position = snd p\<rparr>"
  have "sub_questions (foldl (insert_sub_question rid) w (p # ps)) = sub_questions w @ (?r # rows)"
    using rows(1) by (simp add: insert_sub_question_def)
  moreover have "map sq_sub_question (?r # rows) = map fst (p # ps)" using rows(2) by simp
  moreover have "map sq_position (?r # rows) = map snd (p # ps)" using rows(3) by simp
  moreover have "\<forall>r \<in> set (?r # rows). sq_research_run_id r = rid" using rows(4) by simp
  ultimately show ?case by blast
qed

lemma foldl_insert_sub_question_others:
  "research_runs (foldl (insert_sub_question rid) w ps) = research_runs w \<and>
   search_results (foldl (insert_sub_question rid) w ps) = search_results w \<and>
   sub_question_summaries (foldl (insert_sub_question rid) w ps) = sub_question_summaries w \<and>
   judge_evaluations (foldl (insert_sub_question rid) w ps) = judge_evaluations w \<and>
   trace (foldl (insert_sub_question rid) w ps) = trace w"
  by (induction ps arbitrary: w) (simp_all add: insert_sub_question_def)

lemma sort_key_sorted_id: "sorted (map f xs) \<Longrightarrow> sort_key f xs = xs"
  by (induction xs) (auto simp: insort_is_Cons)


lemma resolver_hit:
  assumes "cached_run w query = Some c"
  shows "research_decomposition_pipeline e query w =
           (Inr \<lparr>out_run_id = rr_id c, out_original_query = query,
                 out_classification = rr_classification c,
                 out_decomposition =
                   \<lparr>dc_sub_questions = run_sub_questions w (rr_id c),
                    dc_primary_intent = rr_primary_intent c,
                    dc_relationship = rr_relationship c,
                    dc_difficulty_level = rr_difficulty_level c\<rparr>\<rparr>, w)"
  using assms by (simp add: research_decomposition_pipeline_def)

lemma resolver_miss:
  assumes miss: "cached_run w query = None"
    and res: "research_decomposition_pipeline e query w = (Inr r, w')"
  shows "out_run_id r = uuid4 e (length (trace w)) \<and>
         out_run_id r \<notin> set (map rr_id (research_runs w)) \<and>
         (\<exists>run. research_runs w' = research_runs w @ [run] \<and> rr_id run = out_run_id r \<and>
            rr_original_query run = query \<and> rr_classification run = out_classification r \<and>
            rr_final_answer run = None) \<and>
         (\<exists>rows. sub_questions w' = sub_questions w @ rows \<and>
            map sq_sub_question rows = dc_sub_questions (out_decomposition r) \<and>
            map sq_position rows = [1 ..< Suc (length (dc_sub_questions (out_decomposition r)))] \<and>
            (\<forall>s \<in> set rows. sq_research_run_id s = out_run_id r)) \<and>
         search_results w' = search_results w \<and>
         sub_question_summaries w' = sub_question_summaries w \<and>
         judge_evaluations w' = judge_evaluations w"
proof -
  obtain qt ctx w1 where c: "classify_step e query w = ((qt, ctx), w1)"
    by (metis prod.exhaust)
  obtain d w2 where d: "decompose_step e query qt ctx w1 = (d, w2)"
    by (metis prod.exhaust)
  note t1 = classify_step_tables [OF c]
  note t2 = decompose_step_tables [OF d]
  let ?rid = "uuid4 e (length (trace w))"
  let ?run = "\<lparr>rr_id = ?rid, rr_original_query = query, rr_classification = qt,
               rr_primary_intent = dc_primary_intent d, rr_relationship = dc_relationship d,
               rr_difficulty_level = dc_difficulty_level d, rr_final_answer = None,
               rr_created_at = current_timestamp e (length (trace w2))\<rparr>"
  let ?w3 = "w2\<lparr>research_runs := research_runs w2 @ [?run]\<rparr>"
  have fresh: "?rid \<notin> set (map rr_id (research_runs w))"
    using res miss c d t1 t2
    by (auto simp: research_decomposition_pipeline_def Let_def split: if_splits)
  have r: "r = \<lparr>out_run_id = ?rid, out_original_query = query, out_classification = qt,
                out_decomposition = d\<rparr>"
    and w': "w' = insert_sub_questions ?rid (dc_sub_questions d) ?w3"
    using res miss c d t1 t2
    by (auto simp: research_decomposition_pipeline_def Let_def split: if_splits)
  obtain rows where rows:
    "sub_questions w' = sub_questions ?w3 @ rows"
    "map sq_sub_question rows = map fst (zip (dc_sub_questions d) [1 ..< Suc (length (dc_sub_questions d))])"
    "map sq_position rows = map snd (zip (dc_sub_questions d) [1 ..< Suc (length (dc_sub_questions d))])"
    "\<forall>s \<in> set rows. sq_research_run_id s = ?rid"
    unfolding w' insert_sub_questions_def
    using foldl_insert_sub_question [of ?rid ?w3] by blast
  have others: "research_runs w' = research_runs ?w3" "search_results w' = search_results ?w3"
    "sub_question_summaries w' = sub_question_summaries ?w3"
    "judge_evaluations w' = judge_evaluations ?w3"
    unfolding w' insert_sub_questions_def
    using foldl_insert_sub_question_others [of ?rid ?w3] by simp_all
  have m1: "map sq_sub_question rows = dc_sub_questions d"
    using rows(2) by (simp del: upt_Suc)
  have m2: "map sq_position rows = [1 ..< Suc (length (dc_sub_questions d))]"
    using rows(3) by (simp del: upt_Suc)
  show ?thesis
    using fresh r rows(1,4) m1 m2 others t1 t2 by (simp del: upt_Suc)
qed


lemma run_sub_questions_fresh:
  assumes old: "\<forall>s \<in> set olds. sq_research_run_id s \<noteq> rid"
    and new: "\<forall>s \<in> set rows. sq_research_run_id s = rid"
    and pos: "sorted (map sq_position rows)"
    and tab: "sub_questions w = olds @ rows"
  shows "run_sub_questions w rid = map sq_sub_question rows"
proof -
  have "filter (\<lambda>r. sq_research_run_id r = rid) olds = []"
    using old by (simp add: filter_empty_conv)
  moreover have "filter (\<lambda>r. sq_research_run_id r = rid) rows = rows"
    using new by (simp add: filter_id_conv)
  ultimately show ?thesis
    using pos by (simp add: run_sub_questions_def tab sort_key_sorted_id)
qed

text \<open>
  C3. When a call of the resolver returns, a second call with the same query, whatever the
  capabilities would answer then, returns the same run id and the same ordered list of
  sub-questions and leaves the world as it was: no event is added to the trace, so no
  classification or decomposition call is made. The tables are assumed to respect the
  foreign key of \<open>sub_questions\<close> declared in database.py.
\<close>

theorem resolver_idempotent:
  assumes fk: "\<forall>s \<in> set (sub_questions w). sq_research_run_id s \<in> set (map rr_id (research_runs w))"
    and first: "research_decomposition_pipeline e1 query w = (Inr r1, w1)"
  shows "\<exists>r2. research_decomposition_pipeline e2 query w1 = (Inr r2, w1) \<and>
           out_run_id r2 = out_run_id r1 \<and>
           dc_sub_questions (out_decomposition r2) = dc_sub_questions (out_decomposition r1)"
proof (cases "cached_run w query")
  case (Some c)
  have "w1 = w" and "out_run_id r1 = rr_id c"
    and "dc_sub_questions (out_decomposition r1) = run_sub_questions w (rr_id c)"
    using first unfolding resolver_hit [OF Some] by auto
  then show ?thesis
    by (simp add: resolver_hit [OF Some])
next
  case None
  from resolver_miss [OF None first] obtain run rows where
    fresh: "out_run_id r1 \<notin> set (map rr_id (research_runs w))"
    and runs: "research_runs w1 = research_runs w @ [run]"
    and run: "rr_id run = out_run_id r1" "rr_original_query run = query"
    and tab: "sub_questions w1 = sub_questions w @ rows"
    and qtexts: "map sq_sub_question rows = dc_sub_questions (out_decomposition r1)"
    and pos: "map sq_position rows = [1 ..< Suc (length (dc_sub_questions (out_decomposition r1)))]"
    and own: "\<forall>s \<in> set rows. sq_research_run_id s = out_run_id r1"
    by blast
  have "filter (\<lambda>r. rr_original_query r = query) (research_runs w) = []"
    using None by (simp add: cached_run_def pick_latest_None)
  then have hit: "cached_run w1 query = Some run"
    using runs run(2) by (simp add: cached_run_def)
  have old: "\<forall>s \<in> set (sub_questions w). sq_research_run_id s \<noteq> out_run_id r1"
    using fk fresh by metis
  have "sorted (map sq_position rows)"
    unfolding pos by (rule sorted_upt)
  then have "run_sub_questions w1 (out_run_id r1) = dc_sub_questions (out_decomposition r1)"
    using run_sub_questions_fresh [OF old own _ tab] qtexts by simp
  then show ?thesis
    using run(1) by (simp add: resolver_hit [OF hit])
qed

theorem resolver_idempotent_witness:
  "sub_questions empty_world = [] \<and>
   (\<exists>r1 w1. research_decomposition_pipeline (sample_env (1 / 2) []) ''q'' empty_world = (Inr r1, w1) \<and>
      (\<exists>r2. research_decomposition_pipeline (sample_env (9 / 10) [''x'']) ''q'' w1 = (Inr r2, w1) \<and>
         out_run_id r2 = out_run_id r1 \<and>
         dc_sub_questions (out_decomposition r2) = dc_sub_questions (out_decomposition r1)))"
proof -
  have fk: "\<forall>s \<in> set (sub_questions empty_world).
      sq_research_run_id s \<in> set (map rr_id (research_runs empty_world))"
    by (simp add: empty_world_def)
  have "\<not> isl (fst (research_decomposition_pipeline (sample_env (1 / 2) []) ''q'' empty_world))"
    by code_simp
  then obtain r1 w1 where
    first: "research_decomposition_pipeline (sample_env (1 / 2) []) ''q'' empty_world = (Inr r1, w1)"
    by (metis isl_def old.sum.exhaust prod.collapse)
  have "sub_questions empty_world = []"
    by (simp add: empty_world_def)
  then show ?thesis
    using first resolver_idempotent [OF fk first, of "sample_env (9 / 10) [''x'']"] by blast
qed

lemma classify_step_result:
  assumes "classify_step e query w = ((qt, ctx), w1)"
  shows "ctx = retrieve_context e (length (trace w)) query"
    and "ctx \<noteq> None \<Longrightarrow> length (trace w1) = Suc (Suc (length (trace w)))"
    and "classification_failed e query w \<Longrightarrow> qt = ''ambiguous''"
    and "qt = (case ctx of None \<Rightarrow> ''ambiguous''
               | Some c \<Rightarrow> (case classification_chain e (Suc (length (trace w))) (context_query query c) of
                    None \<Rightarrow> ''ambiguous'' | Some category \<Rightarrow> category))"
  using assms
  by (auto simp: classify_step_def classification_failed_def emit_def Let_def split: option.splits)

lemma decompose_step_fallback:
  assumes "decompose_step e query qt ctx w1 = (d, w2)"
    and "ctx = None \<or> decomposition_chain e (length (trace w1)) (context_query query (the ctx)) qt = None"
  shows "d = fallback_decomposition query"
  using assms
  by (auto simp: decompose_step_def emit_def Let_def split: option.splits)

lemma resolver_miss_returns:
  assumes miss: "cached_run w query = None"
    and fresh: "uuid4 e (length (trace w)) \<notin> set (map rr_id (research_runs w))"
  shows "\<exists>qt ctx w1 d w2 w'.
           classify_step e query w = ((qt, ctx), w1) \<and>
           decompose_step e query qt ctx w1 = (d, w2) \<and>
           research_decomposition_pipeline e query w =
             (Inr \<lparr>out_run_id = uuid4 e (length (trace w)), out_original_query = query,
                   out_classification = qt, out_decomposition = d\<rparr>, w')"
proof -
  obtain qt ctx w1 where c: "classify_step e query w = ((qt, ctx), w1)"
    by (metis prod.exhaust)
  obtain d w2 where d: "decompose_step e query qt ctx w1 = (d, w2)"
    by (metis prod.exhaust)
  have "research_runs w2 = research_runs w"
    using classify_step_tables [OF c] decompose_step_tables [OF d] by simp
  then show ?thesis
    using miss fresh c d by (simp add: research_decomposition_pipeline_def Let_def)
qed

text \<open>
  C7, as amended. On a query with no cached run and a run id not yet in use, the resolver
  returns and persists a Run whose sub-question rows, in position order, are the returned
  list. When classification fails the category is "ambiguous". When decomposition fails
  the result is the fallback (the original query alone, with the default intent,
  relationship and difficulty) and the Run has exactly that one sub-question row. When the
  decomposition chain answers, the Run has as many rows as the answer has sub-questions,
  which is none for an empty answer.
\<close>

theorem resolver_failure_policy:
  assumes miss: "cached_run w query = None"
    and fresh: "uuid4 e (length (trace w)) \<notin> set (map rr_id (research_runs w))"
    and fk: "\<forall>s \<in> set (sub_questions w). sq_research_run_id s \<in> set (map rr_id (research_runs w))"
  shows "\<exists>r w'. research_decomposition_pipeline e query w = (Inr r, w') \<and>
           (\<exists>run \<in> set (research_runs w'). rr_id run = out_run_id r \<and>
              rr_original_query run = query \<and> rr_classification run = out_classification r) \<and>
           run_sub_questions w' (out_run_id r) = dc_sub_questions (out_decomposition r) \<and>
           (classification_failed e query w \<longrightarrow> out_classification r = ''ambiguous'') \<and>
           (decomposition_failed e query w \<longrightarrow>
              out_decomposition r = fallback_decomposition query \<and>
              run_sub_questions w' (out_run_id r) = [query])"
proof -
  from resolver_miss_returns [OF miss fresh] obtain qt ctx w1 d w2 w' where
    c: "classify_step e query w = ((qt, ctx), w1)"
    and d: "decompose_step e query qt ctx w1 = (d, w2)"
    and res: "research_decomposition_pipeline e query w =
             (Inr \<lparr>out_run_id = uuid4 e (length (trace w)), out_original_query = query,
                   out_classification = qt, out_decomposition = d\<rparr>, w')"
    by blast
  let ?r = "\<lparr>out_run_id = uuid4 e (length (trace w)), out_original_query = query,
                   out_classification = qt, out_decomposition = d\<rparr>"
  from resolver_miss [OF miss res] obtain run rows where
    runs: "research_runs w' = research_runs w @ [run]"
    and run: "rr_id run = out_run_id ?r" "rr_original_query run = query"
      "rr_classification run = out_classification ?r"
    and tab: "sub_questions w' = sub_questions w @ rows"
    and qtexts: "map sq_sub_question rows = dc_sub_questions (out_decomposition ?r)"
    and pos: "map sq_position rows = [1 ..< Suc (length (dc_sub_questions (out_decomposition ?r)))]"
    and own: "\<forall>s \<in> set rows. sq_research_run_id s = out_run_id ?r"
    by blast
  have old: "\<forall>s \<in> set (sub_questions w). sq_research_run_id s \<noteq> out_run_id ?r"
    using fk fresh by (metis decomposition_output.select_convs(1))
  have "sorted (map sq_position rows)"
    unfolding pos by (rule sorted_upt)
  then have subs: "run_sub_questions w' (out_run_id ?r) = dc_sub_questions (out_decomposition ?r)"
    using run_sub_questions_fresh [OF old own _ tab] qtexts by simp
  have persisted: "\<exists>run \<in> set (research_runs w'). rr_id run = out_run_id ?r \<and>
              rr_original_query run = query \<and> rr_classification run = out_classification ?r"
    using runs run by auto
  have cls: "classification_failed e query w \<longrightarrow> out_classification ?r = ''ambiguous''"
    using classify_step_result(3) [OF c] by simp
  have dec: "out_decomposition ?r = fallback_decomposition query"
    if f: "decomposition_failed e query w"
  proof -
    have ctx: "ctx = retrieve_context e (length (trace w)) query"
      by (rule classify_step_result(1) [OF c])
    have "ctx = None \<or>
          decomposition_chain e (length (trace w1)) (context_query query (the ctx)) qt = None"
    proof (cases ctx)
      case None
      then show ?thesis by simp
    next
      case (Some m)
      have len: "length (trace w1) = Suc (Suc (length (trace w)))"
        using classify_step_result(2) [OF c] Some by simp
      have "qt = (case classification_chain e (Suc (length (trace w))) (context_query query m) of
                    None \<Rightarrow> ''ambiguous'' | Some category \<Rightarrow> category)"
        using classify_step_result(4) [OF c] Some by simp
      moreover have rc: "retrieve_context e (length (trace w)) query = Some m"
        using ctx Some by simp
      ultimately show ?thesis
        using f Some len by (simp add: decomposition_failed_def rc)
    qed
    then show ?thesis
      using decompose_step_fallback [OF d] by simp
  qed
  have dec2: "decomposition_failed e query w \<longrightarrow>
              out_decomposition ?r = fallback_decomposition query \<and>
              run_sub_questions w' (out_run_id ?r) = [query]"
    using dec subs by (auto simp: fallback_decomposition_def)
  show ?thesis
    using res persisted subs cls dec2 by blast
qed

theorem resolver_failure_policy_witness:
  "cached_run empty_world ''q'' = None \<and>
   uuid4 failing_chains_env (length (trace empty_world)) \<notin> set (map rr_id (research_runs empty_world)) \<and>
   sub_questions empty_world = [] \<and>
   classification_failed failing_chains_env ''q'' empty_world \<and>
   decomposition_failed failing_chains_env ''q'' empty_world \<and>
   (\<exists>r w'. research_decomposition_pipeline failing_chains_env ''q'' empty_world = (Inr r, w') \<and>
      (\<exists>run \<in> set (research_runs w'). rr_id run = out_run_id r \<and>
              rr_original_query run = ''q'' \<and> rr_classification run = ''ambiguous'') \<and>
      out_classification r = ''ambiguous'' \<and>
      out_decomposition r = fallback_decomposition ''q'' \<and>
      run_sub_questions w' (out_run_id r) = [''q''])"
proof -
  have miss: "cached_run empty_world ''q'' = None"
    by (simp add: cached_run_def empty_world_def)
  have fresh: "uuid4 failing_chains_env (length (trace empty_world)) \<notin>
                 set (map rr_id (research_runs empty_world))"
    by (simp add: empty_world_def)
  have tab: "sub_questions empty_world = []"
    by (simp add: empty_world_def)
  then have fk: "\<forall>s \<in> set (sub_questions empty_world).
      sq_research_run_id s \<in> set (map rr_id (research_runs empty_world))"
    by simp
  have cf: "classification_failed failing_chains_env ''q'' empty_world"
    by (simp add: classification_failed_def failing_chains_env_def sample_env_def)
  have df: "decomposition_failed failing_chains_env ''q'' empty_world"
    by (simp add: decomposition_failed_def failing_chains_env_def sample_env_def)
  show ?thesis
    using miss fresh tab cf df resolver_failure_policy [OF miss fresh fk] by fastforce
qed

text \<open>
  C7 as stated fails: the classification chain raises, the decomposition chain returns an
  empty list, and the Run is persisted with no sub-question row.
\<close>

theorem resolver_no_sub_question_counterexample:
  "classification_failed empty_decomposition_env ''q'' empty_world \<and>
   \<not> isl (fst (research_decomposition_pipeline empty_decomposition_env ''q'' empty_world)) \<and>
   map rr_classification
     (research_runs (snd (research_decomposition_pipeline empty_decomposition_env ''q'' empty_world)))
     = [''ambiguous''] \<and>
   sub_questions (snd (research_decomposition_pipeline empty_decomposition_env ''q'' empty_world)) = []"
  by code_simp

section \<open>The follow-up merge\<close>

lemma extend_followups_keeps:
  "take (length fu) (extend_followups fu recommended) = fu"
  by (simp add: extend_followups_def)

lemma extend_followups_set:
  "set (extend_followups fu recommended) = set fu \<union> set recommended"
  by (auto simp: extend_followups_def new_followups_def)

lemma extend_followups_distinct:
  "distinct fu \<Longrightarrow> distinct recommended \<Longrightarrow> distinct (extend_followups fu recommended)"
  by (auto simp: extend_followups_def new_followups_def)

text \<open>
  C5 at a failing input: the judge recommends the same question twice in one list. The
  filter compares each recommendation with the cumulative list only, so both copies are
  appended; the loop run on that judge ends with the question twice in its follow-up list.
\<close>

theorem followups_duplicated:
  "extend_followups [] [''f?'', ''f?''] = [''f?'', ''f?''] \<and>
   \<not> distinct (extend_followups [] [''f?'', ''f?'']) \<and>
   (case pass_loop (sample_env (1 / 2) [''f?'', ''f?'']) ''q'' ''r'' [''a?''] [0 ..< MAX_PASSES]
           initial_state empty_world of
      (Inr st, w) \<Rightarrow> follow_up_questions st = [''f?'', ''f?'']
    | (Inl err, w) \<Rightarrow> False)"
  by code_simp

section \<open>Dictionaries and the cache check\<close>

lemma map_of_dict_set: "map_of (dict_set d k v) = (map_of d)(k \<mapsto> v)"
  by (induction d) (auto simp: fun_eq_iff)

lemma keys_dict_set: "fst ` set (dict_set d k v) = insert k (fst ` set d)"
  by (induction d k v rule: dict_set.induct) (simp_all add: insert_commute)

lemma keys_dict_merge: "fst ` set (dict_merge a b) = fst ` set a \<union> fst ` set b"
  unfolding dict_merge_def
  by (induction b arbitrary: a) (simp_all add: keys_dict_set case_prod_beta)

lemma map_of_dict_merge_left:
  "q \<notin> fst ` set b \<Longrightarrow> map_of (dict_merge a b) q = map_of a q"
  unfolding dict_merge_def
  by (induction b arbitrary: a) (simp_all add: map_of_dict_set case_prod_beta)

lemma fromkeys_aux:
  "set (foldl (\<lambda>acc x. if x \<in> set acc then acc else acc @ [x]) acc xs) = set acc \<union> set xs \<and>
   (distinct acc \<longrightarrow> distinct (foldl (\<lambda>acc x. if x \<in> set acc then acc else acc @ [x]) acc xs))"
  by (induction xs arbitrary: acc) auto

lemma set_fromkeys: "set (fromkeys xs) = set xs"
  using fromkeys_aux [of "[]" xs] by (simp add: fromkeys_def)

lemma distinct_fromkeys: "distinct (fromkeys xs)"
  using fromkeys_aux [of "[]" xs] by (simp add: fromkeys_def)

lemma sub_q_map_None:
  "sub_q_map w rid q = None \<longleftrightarrow>
     (\<forall>r \<in> set (sub_questions w). sq_research_run_id r = rid \<longrightarrow> sq_sub_question r \<noteq> q)"
  by (auto simp: sub_q_map_def map_of_eq_None_iff image_iff)

lemma cache_check_step:
  "cache_check w m (q # qs) c ms =
     (if hit_with w m q
      then cache_check w m qs (dict_set c q (cached_evidence (stored_rows w (the (m q)) ''depth''))) ms
      else cache_check w m qs c (ms @ [q]))"
  by (auto simp: hit_with_def split: option.splits)

lemma cache_check_missing:
  "cache_check w m qs c ms = (c', ms') \<Longrightarrow> ms' = ms @ filter (\<lambda>q. \<not> hit_with w m q) qs"
proof (induction qs arbitrary: c ms)
  case Nil
  then show ?case by simp
next
  case (Cons x qs)
  show ?case
  proof (cases "hit_with w m x")
    case True
    with Cons.prems have
      "cache_check w m qs (dict_set c x (cached_evidence (stored_rows w (the (m x)) ''depth''))) ms = (c', ms')"
      by (simp add: cache_check_step del: cache_check.simps(2))
    from Cons.IH [OF this] True show ?thesis
      by simp
  next
    case False
    with Cons.prems have "cache_check w m qs c (ms @ [x]) = (c', ms')"
      by (simp add: cache_check_step del: cache_check.simps(2))
    from Cons.IH [OF this] False show ?thesis
      by simp
  qed
qed

lemma cache_check_cached:
  "cache_check w m qs c ms = (c', ms') \<Longrightarrow>
     map_of c' q =
       (if q \<in> set qs \<and> hit_with w m q
        then Some (cached_evidence (stored_rows w (the (m q)) ''depth''))
        else map_of c q)"
proof (induction qs arbitrary: c ms)
  case Nil
  then show ?case by simp
next
  case (Cons x qs)
  show ?case
  proof (cases "hit_with w m x")
    case True
    with Cons.prems have
      "cache_check w m qs (dict_set c x (cached_evidence (stored_rows w (the (m x)) ''depth''))) ms = (c', ms')"
      by (simp add: cache_check_step del: cache_check.simps(2))
    from Cons.IH [OF this] True show ?thesis
      by (auto simp: map_of_dict_set)
  next
    case False
    with Cons.prems have "cache_check w m qs c (ms @ [x]) = (c', ms')"
      by (simp add: cache_check_step del: cache_check.simps(2))
    from Cons.IH [OF this] False show ?thesis
      by auto
  qed
qed

lemma cache_check_keys:
  "cache_check w m qs c ms = (c', ms') \<Longrightarrow>
     fst ` set c' = fst ` set c \<union> {q \<in> set qs. hit_with w m q}"
proof (induction qs arbitrary: c ms)
  case Nil
  then show ?case by simp
next
  case (Cons x qs)
  show ?case
  proof (cases "hit_with w m x")
    case True
    with Cons.prems have
      "cache_check w m qs (dict_set c x (cached_evidence (stored_rows w (the (m x)) ''depth''))) ms = (c', ms')"
      by (simp add: cache_check_step del: cache_check.simps(2))
    from Cons.IH [OF this] True show ?thesis
      by (auto simp: keys_dict_set)
  next
    case False
    with Cons.prems have "cache_check w m qs c (ms @ [x]) = (c', ms')"
      by (simp add: cache_check_step del: cache_check.simps(2))
    from Cons.IH [OF this] False show ?thesis
      by auto
  qed
qed

section \<open>Evidence gathering\<close>

lemma those_length: "those rs = Some xs \<Longrightarrow> length xs = length rs"
  by (induction rs arbitrary: xs) (auto split: option.splits)

lemma those_total: "None \<notin> set rs \<Longrightarrow> \<exists>xs. those rs = Some xs"
proof (induction rs)
  case Nil
  show ?case by simp
next
  case (Cons r rs)
  then obtain y xs where "r = Some y" "those rs = Some xs"
    by (cases r) auto
  then show ?case by simp
qed

lemma gather_searches_effect:
  "gather_searches e k qs w = (rs, w') \<Longrightarrow>
     trace w' = trace w @ map (\<lambda>q. Search q k) qs \<and>
     length rs = length qs \<and>
     research_runs w' = research_runs w \<and> sub_questions w' = sub_questions w \<and>
     search_results w' = search_results w \<and>
     sub_question_summaries w' = sub_question_summaries w \<and>
     judge_evaluations w' = judge_evaluations w"
proof (induction qs arbitrary: w rs w')
  case Nil
  then show ?case by simp
next
  case (Cons q qs)
  obtain rs0 w0 where g: "gather_searches e k qs (emit (Search q k) w) = (rs0, w0)"
    by (metis prod.exhaust)
  with Cons.prems have "rs = tavily_client_search e (length (trace w)) q k # rs0" "w' = w0"
    by (simp_all add: Let_def)
  with Cons.IH [OF g] show ?case
    by (simp add: emit_def)
qed

lemma gather_searches_total:
  assumes "\<forall>n q k. tavily_client_search e n q k \<noteq> None"
  shows "None \<notin> set (fst (gather_searches e k qs w))"
proof (induction qs arbitrary: w)
  case Nil
  show ?case by simp
next
  case (Cons q qs)
  have "tavily_client_search e (length (trace w)) q k \<noteq> None"
    using assms by simp
  then show ?case
    using Cons.IH [of "emit (Search q k) w"]
    by (cases "gather_searches e k qs (emit (Search q k) w)") (auto simp: Let_def)
qed

lemma keys_foldl_dict_set:
  "length qs = length rs \<Longrightarrow>
     fst ` set (foldl (\<lambda>d (q, r). dict_set d q (f r)) d (zip qs rs)) = fst ` set d \<union> set qs"
proof (induction qs arbitrary: rs d)
  case Nil
  then show ?case by simp
next
  case (Cons q qs)
  then obtain r rs' where rs: "rs = r # rs'" "length qs = length rs'"
    by (cases rs) auto
  show ?case
    using Cons.IH [OF rs(2)] by (simp add: rs(1) keys_dict_set)
qed

lemma tavily_search_effect:
  assumes "tavily_search e qs ty w = (res, w')"
  shows "trace w' = trace w @ map (\<lambda>q. Search q (if ty = ''depth'' then 5 else 10)) qs"
    and "research_runs w' = research_runs w" and "sub_questions w' = sub_questions w"
    and "search_results w' = search_results w"
    and "sub_question_summaries w' = sub_question_summaries w"
    and "judge_evaluations w' = judge_evaluations w"
    and "res = Inr sr \<Longrightarrow> fst ` set sr = set qs"
    and "(\<forall>n q k. tavily_client_search e n q k \<noteq> None) \<Longrightarrow> \<exists>sr. res = Inr sr"
proof -
  let ?k = "if ty = ''depth'' then 5 else 10 :: nat"
  obtain rs w0 where g: "gather_searches e ?k qs w = (rs, w0)"
    by (metis prod.exhaust)
  note eff = gather_searches_effect [OF g]
  have w': "w' = w0"
    using assms g by (auto simp: tavily_search_def Let_def split: option.splits)
  show "trace w' = trace w @ map (\<lambda>q. Search q (if ty = ''depth'' then 5 else 10)) qs"
    and "research_runs w' = research_runs w" and "sub_questions w' = sub_questions w"
    and "search_results w' = search_results w"
    and "sub_question_summaries w' = sub_question_summaries w"
    and "judge_evaluations w' = judge_evaluations w"
    using eff w' by simp_all
  show "fst ` set sr = set qs" if "res = Inr sr"
  proof -
    from that assms g obtain xs where xs: "those rs = Some xs"
      and sr: "sr = foldl (\<lambda>d (q, r). dict_set d q (response_evidence r)) [] (zip qs xs)"
      by (auto simp: tavily_search_def Let_def split: option.splits)
    have "length qs = length xs"
      using those_length [OF xs] eff by simp
    then show ?thesis
      unfolding sr using keys_foldl_dict_set [of qs xs response_evidence "[]"] by simp
  qed
  show "\<exists>sr. res = Inr sr" if "\<forall>n q k. tavily_client_search e n q k \<noteq> None"
  proof -
    have "None \<notin> set rs"
      using gather_searches_total [OF that, of ?k qs w] g by simp
    then obtain xs where "those rs = Some xs"
      using those_total by blast
    then show ?thesis
      using assms g by (auto simp: tavily_search_def Let_def)
  qed
qed

lemma foldl_insert_search_result:
  "\<exists>rows. search_results (foldl (\<lambda>w x. insert_search_result sid q (f x) (g x) w) w xs)
             = search_results w @ rows \<and>
     (\<forall>r \<in> set rows. sr_sub_question_id r = sid \<and> sr_search_query r = q \<and>
        sr_search_type r = ''depth'') \<and>
     research_runs (foldl (\<lambda>w x. insert_search_result sid q (f x) (g x) w) w xs) = research_runs w \<and>
     sub_questions (foldl (\<lambda>w x. insert_search_result sid q (f x) (g x) w) w xs) = sub_questions w \<and>
     sub_question_summaries (foldl (\<lambda>w x. insert_search_result sid q (f x) (g x) w) w xs)
       = sub_question_summaries w \<and>
     judge_evaluations (foldl (\<lambda>w x. insert_search_result sid q (f x) (g x) w) w xs)
       = judge_evaluations w \<and>
     trace (foldl (\<lambda>w x. insert_search_result sid q (f x) (g x) w) w xs) = trace w"
proof (induction xs arbitrary: w)
  case Nil
  show ?case by simp
next
  case (Cons x xs)
  let ?w1 = "insert_search_result sid q (f x) (g x) w"
  from Cons.IH [of ?w1] obtain rows where
    rows: "search_results (foldl (\<lambda>w x. insert_search_result sid q (f x) (g x) w) ?w1 xs)
             = search_results ?w1 @ rows"
      "\<forall>r \<in> set rows. sr_sub_question_id r = sid \<and> sr_search_query r = q \<and>
        sr_search_type r = ''depth''"
    and rest: "research_runs (foldl (\<lambda>w x. insert_search_result sid q (f x) (g x) w) ?w1 xs) = research_runs ?w1"
     "sub_questions (foldl (\<lambda>w x. insert_search_result sid q (f x) (g x) w) ?w1 xs) = sub_questions ?w1"
     "sub_question_summaries (foldl (\<lambda>w x. insert_search_result sid q (f x) (g x) w) ?w1 xs)
       = sub_question_summaries ?w1"
     "judge_evaluations (foldl (\<lambda>w x. insert_search_result sid q (f x) (g x) w) ?w1 xs)
       = judge_evaluations ?w1"
     "trace (foldl (\<lambda>w x. insert_search_result sid q (f x) (g x) w) ?w1 xs) = trace ?w1"
    by blast
  obtain r0 where r0: "search_results ?w1 = search_results w @ [r0]"
    "sr_sub_question_id r0 = sid" "sr_search_query r0 = q" "sr_search_type r0 = ''depth''"
    by (simp add: insert_search_result_def)
  have "search_results (foldl (\<lambda>w x. insert_search_result sid q (f x) (g x) w) w (x # xs))
          = search_results w @ (r0 # rows)"
    using rows(1) r0(1) by simp
  moreover have "\<forall>r \<in> set (r0 # rows). sr_sub_question_id r = sid \<and> sr_search_query r = q \<and>
        sr_search_type r = ''depth''"
    using rows(2) r0 by simp
  ultimately show ?case
    using rest by (auto simp: insert_search_result_def)
qed


lemma persist_fresh_effect:
  "\<exists>rows. search_results (persist_fresh m fresh w) = search_results w @ rows \<and>
     (\<forall>r \<in> set rows. sr_search_type r = ''depth'' \<and> sr_search_query r \<in> fst ` set fresh \<and>
        m (sr_search_query r) = Some (sr_sub_question_id r) \<and> sr_sub_question_id r \<noteq> 0) \<and>
     research_runs (persist_fresh m fresh w) = research_runs w \<and>
     sub_questions (persist_fresh m fresh w) = sub_questions w \<and>
     sub_question_summaries (persist_fresh m fresh w) = sub_question_summaries w \<and>
     judge_evaluations (persist_fresh m fresh w) = judge_evaluations w \<and>
     trace (persist_fresh m fresh w) = trace w"
proof (induction fresh arbitrary: w)
  case Nil
  show ?case by simp
next
  case (Cons p fresh)
  obtain q d where p: "p = (q, d)"
    by (cases p)
  show ?case
  proof (cases "\<exists>sid. m q = Some sid \<and> sid \<noteq> 0")
    case False
    then have "persist_fresh m (p # fresh) w = persist_fresh m fresh w"
      by (auto simp: p split: option.splits)
    with Cons.IH [of w] show ?thesis
      by (metis (no_types, lifting) image_insert insertCI list.simps(15))
  next
    case True
    then obtain sid where sid: "m q = Some sid" "sid \<noteq> 0"
      by blast
    let ?w1 = "foldl (\<lambda>w x. insert_search_result sid q None (Some x) w) w
                 (filter (\<lambda>s. s \<noteq> []) (split_on newline (snippets d)))"
    let ?w2 = "foldl (\<lambda>w x. insert_search_result sid q (Some x) None w) ?w1 (urls d)"
    have step: "persist_fresh m (p # fresh) w = persist_fresh m fresh ?w2"
      using sid by (simp add: p Let_def)
    from foldl_insert_search_result [of sid q "\<lambda>_. None" Some w
           "filter (\<lambda>s. s \<noteq> []) (split_on newline (snippets d))"]
    obtain rows1 where r1: "search_results ?w1 = search_results w @ rows1"
      "\<forall>r \<in> set rows1. sr_sub_question_id r = sid \<and> sr_search_query r = q \<and>
        sr_search_type r = ''depth''"
      and o1: "research_runs ?w1 = research_runs w" "sub_questions ?w1 = sub_questions w"
        "sub_question_summaries ?w1 = sub_question_summaries w"
        "judge_evaluations ?w1 = judge_evaluations w" "trace ?w1 = trace w"
      by blast
    from foldl_insert_search_result [of sid q Some "\<lambda>_. None" ?w1 "urls d"]
    obtain rows2 where r2: "search_results ?w2 = search_results ?w1 @ rows2"
      "\<forall>r \<in> set rows2. sr_sub_question_id r = sid \<and> sr_search_query r = q \<and>
        sr_search_type r = ''depth''"
      and o2: "research_runs ?w2 = research_runs ?w1" "sub_questions ?w2 = sub_questions ?w1"
        "sub_question_summaries ?w2 = sub_question_summaries ?w1"
        "judge_evaluations ?w2 = judge_evaluations ?w1" "trace ?w2 = trace ?w1"
      by blast
    from Cons.IH [of ?w2] obtain rows3 where
      r3: "search_results (persist_fresh m fresh ?w2) = search_results ?w2 @ rows3"
      "\<forall>r \<in> set rows3. sr_search_type r = ''depth'' \<and> sr_search_query r \<in> fst ` set fresh \<and>
        m (sr_search_query r) = Some (sr_sub_question_id r) \<and> sr_sub_question_id r \<noteq> 0"
      and o3: "research_runs (persist_fresh m fresh ?w2) = research_runs ?w2"
        "sub_questions (persist_fresh m fresh ?w2) = sub_questions ?w2"
        "sub_question_summaries (persist_fresh m fresh ?w2) = sub_question_summaries ?w2"
        "judge_evaluations (persist_fresh m fresh ?w2) = judge_evaluations ?w2"
        "trace (persist_fresh m fresh ?w2) = trace ?w2"
      by blast
    have a: "search_results (persist_fresh m (p # fresh) w) = search_results w @ (rows1 @ rows2 @ rows3)"
      unfolding step using r1(1) r2(1) r3(1) by simp
    have b: "\<forall>r \<in> set (rows1 @ rows2 @ rows3). sr_search_type r = ''depth'' \<and>
        sr_search_query r \<in> fst ` set (p # fresh) \<and>
        m (sr_search_query r) = Some (sr_sub_question_id r) \<and> sr_sub_question_id r \<noteq> 0"
      using r1(2) r2(2) r3(2) sid by (auto simp: p)
    have c: "research_runs (persist_fresh m (p # fresh) w) = research_runs w"
      "sub_questions (persist_fresh m (p # fresh) w) = sub_questions w"
      "sub_question_summaries (persist_fresh m (p # fresh) w) = sub_question_summaries w"
      "judge_evaluations (persist_fresh m (p # fresh) w) = judge_evaluations w"
      "trace (persist_fresh m (p # fresh) w) = trace w"
      unfolding step using o1 o2 o3 by simp_all
    show ?thesis
      using a b c by blast
  qed
qed

text \<open>What one call of the evidence gathering does to the world and what it returns.\<close>

lemma gather_evidence_effect:
  assumes g: "gather_evidence e base fu rid w = (res, w')"
  shows "trace w' = trace w @
           map (\<lambda>q. Search q 5) (filter (\<lambda>q. \<not> cache_hit w rid q) (fromkeys (base @ fu)))"
    and "research_runs w' = research_runs w" and "sub_questions w' = sub_questions w"
    and "sub_question_summaries w' = sub_question_summaries w"
    and "judge_evaluations w' = judge_evaluations w"
    and "\<exists>rows. search_results w' = search_results w @ rows \<and>
           (\<forall>r \<in> set rows. sr_search_type r = ''depth'' \<and>
              sr_search_query r \<in> set (base @ fu) \<and> \<not> cache_hit w rid (sr_search_query r) \<and>
              sub_q_map w rid (sr_search_query r) = Some (sr_sub_question_id r) \<and>
              sr_sub_question_id r \<noteq> 0)"
    and "res = Inr sr \<Longrightarrow> fst ` set sr = set (base @ fu)"
    and "res = Inr sr \<Longrightarrow> q \<in> set (base @ fu) \<Longrightarrow> cache_hit w rid q \<Longrightarrow>
           map_of sr q = Some (cached_evidence (stored_rows w (the (sub_q_map w rid q)) ''depth''))"
    and "(\<forall>n q k. tavily_client_search e n q k \<noteq> None) \<Longrightarrow> \<exists>sr. res = Inr sr"
proof -
  let ?m = "sub_q_map w rid"
  let ?all = "fromkeys (base @ fu)"
  let ?missing = "filter (\<lambda>q. \<not> cache_hit w rid q) ?all"
  obtain cached ms where cc: "cache_check w ?m ?all [] [] = (cached, ms)"
    by (metis prod.exhaust)
  have ms: "ms = ?missing"
    using cache_check_missing [OF cc] by (simp add: cache_hit_def)
  have ckeys: "fst ` set cached = {q \<in> set (base @ fu). cache_hit w rid q}"
    using cache_check_keys [OF cc] by (simp add: cache_hit_def set_fromkeys)
  obtain sres w1 where s:
    "(if ms \<noteq> [] then tavily_search e ms ''depth'' w else (Inr [], w)) = (sres, w1)"
    by (metis prod.exhaust)
  have w1: "trace w1 = trace w @ map (\<lambda>q. Search q 5) ms \<and>
        research_runs w1 = research_runs w \<and> sub_questions w1 = sub_questions w \<and>
        search_results w1 = search_results w \<and>
        sub_question_summaries w1 = sub_question_summaries w \<and>
        judge_evaluations w1 = judge_evaluations w"
  proof (cases "ms = []")
    case True
    then show ?thesis
      using s by simp
  next
    case False
    then have t: "tavily_search e ms ''depth'' w = (sres, w1)"
      using s by simp
    show ?thesis
      using tavily_search_effect(1-6) [OF t] by simp
  qed
  have fkeys: "fst ` set fresh = set ms" if "sres = Inr fresh" for fresh
  proof (cases "ms = []")
    case True
    then show ?thesis using s that by simp
  next
    case False
    then have t: "tavily_search e ms ''depth'' w = (sres, w1)"
      using s by simp
    show ?thesis
      using tavily_search_effect(7) [OF t that] .
  qed
  have unfold: "gather_evidence e base fu rid w =
      (case (sres, w1) of
         (Inl err, w1) \<Rightarrow> (Inl err, w1)
       | (Inr fresh_results, w1) \<Rightarrow>
           (Inr (dict_merge cached fresh_results), persist_fresh ?m fresh_results w1))"
    using cc s by (simp add: gather_evidence_def Let_def)
  show "(\<forall>n q k. tavily_client_search e n q k \<noteq> None) \<Longrightarrow> \<exists>sr. res = Inr sr"
  proof -
    assume tot: "\<forall>n q k. tavily_client_search e n q k \<noteq> None"
    have "\<exists>fresh. sres = Inr fresh"
    proof (cases "ms = []")
      case True
      then show ?thesis using s by auto
    next
      case False
      then have t: "tavily_search e ms ''depth'' w = (sres, w1)"
        using s by simp
      show ?thesis
        using tavily_search_effect(8) [OF t tot] .
    qed
    then show ?thesis
      using g unfold by auto
  qed
  have main: "trace w' = trace w @ map (\<lambda>q. Search q 5) ?missing \<and>
      research_runs w' = research_runs w \<and> sub_questions w' = sub_questions w \<and>
      sub_question_summaries w' = sub_question_summaries w \<and>
      judge_evaluations w' = judge_evaluations w \<and>
      (\<exists>rows. search_results w' = search_results w @ rows \<and>
           (\<forall>r \<in> set rows. sr_search_type r = ''depth'' \<and>
              sr_search_query r \<in> set (base @ fu) \<and> \<not> cache_hit w rid (sr_search_query r) \<and>
              sub_q_map w rid (sr_search_query r) = Some (sr_sub_question_id r) \<and>
              sr_sub_question_id r \<noteq> 0))"
  proof (cases sres)
    case (Inl err)
    then have "w' = w1"
      using g unfold by simp
    then show ?thesis
      using w1 ms by simp
  next
    case (Inr fresh)
    then have w': "w' = persist_fresh ?m fresh w1"
      using g unfold by simp
    from persist_fresh_effect [of ?m fresh w1] obtain rows where
      rows: "search_results w' = search_results w1 @ rows"
      "\<forall>r \<in> set rows. sr_search_type r = ''depth'' \<and> sr_search_query r \<in> fst ` set fresh \<and>
        ?m (sr_search_query r) = Some (sr_sub_question_id r) \<and> sr_sub_question_id r \<noteq> 0"
      and rest: "research_runs w' = research_runs w1" "sub_questions w' = sub_questions w1"
        "sub_question_summaries w' = sub_question_summaries w1"
        "judge_evaluations w' = judge_evaluations w1" "trace w' = trace w1"
      unfolding w' by blast
    have "\<forall>r \<in> set rows. sr_search_type r = ''depth'' \<and>
              sr_search_query r \<in> set (base @ fu) \<and> \<not> cache_hit w rid (sr_search_query r) \<and>
              sub_q_map w rid (sr_search_query r) = Some (sr_sub_question_id r) \<and>
              sr_sub_question_id r \<noteq> 0"
      using rows(2) fkeys [OF Inr] ms by (auto simp: set_fromkeys)
    then show ?thesis
      using rows(1) rest w1 ms by auto
  qed
  show "trace w' = trace w @ map (\<lambda>q. Search q 5) ?missing"
    and "research_runs w' = research_runs w" and "sub_questions w' = sub_questions w"
    and "sub_question_summaries w' = sub_question_summaries w"
    and "judge_evaluations w' = judge_evaluations w"
    and "\<exists>rows. search_results w' = search_results w @ rows \<and>
           (\<forall>r \<in> set rows. sr_search_type r = ''depth'' \<and>
              sr_search_query r \<in> set (base @ fu) \<and> \<not> cache_hit w rid (sr_search_query r) \<and>
              sub_q_map w rid (sr_search_query r) = Some (sr_sub_question_id r) \<and>
              sr_sub_question_id r \<noteq> 0)"
    using main by blast+
  show "fst ` set sr = set (base @ fu)" if r: "res = Inr sr"
  proof -
    from r g unfold obtain fresh where f: "sres = Inr fresh" "sr = dict_merge cached fresh"
      by (auto split: sum.splits)
    show ?thesis
      unfolding f(2) keys_dict_merge ckeys fkeys [OF f(1)] ms
      by (auto simp: set_fromkeys)
  qed
  show "map_of sr q = Some (cached_evidence (stored_rows w (the (sub_q_map w rid q)) ''depth''))"
    if r: "res = Inr sr" and q: "q \<in> set (base @ fu)" and h: "cache_hit w rid q"
  proof -
    from r g unfold obtain fresh where f: "sres = Inr fresh" "sr = dict_merge cached fresh"
      by (auto split: sum.splits)
    have "q \<notin> fst ` set fresh"
      unfolding fkeys [OF f(1)] ms using h by simp
    then have "map_of sr q = map_of cached q"
      unfolding f(2) by (rule map_of_dict_merge_left)
    also have "\<dots> = Some (cached_evidence (stored_rows w (the (?m q)) ''depth''))"
      using cache_check_cached [OF cc, of q] q h by (simp add: cache_hit_def set_fromkeys)
    finally show ?thesis .
  qed
qed

section \<open>Summaries, synthesis and judging\<close>

lemma analyze_loop_effect:
  "analyze_loop e sr acc w = (res, w') \<Longrightarrow>
     research_runs w' = research_runs w \<and> sub_questions w' = sub_questions w \<and>
     search_results w' = search_results w \<and> judge_evaluations w' = judge_evaluations w \<and>
     (\<exists>evs. trace w' = trace w @ evs \<and> (\<forall>ev \<in> set evs. \<exists>q s. ev = Summarize q s)) \<and>
     ((\<forall>n q s. analyzer_llm e n q s \<noteq> None) \<longrightarrow> (\<exists>an. res = Inr an))"
proof (induction e sr acc w arbitrary: res w' rule: analyze_loop.induct)
  case (1 e analyzed w)
  then show ?case by auto
next
  case (2 e question data rest analyzed w)
  show ?case
  proof (cases "find_sub_question w question")
    case None
    with "2.prems" have "analyze_loop e rest analyzed w = (res, w')"
      by simp
    from "2.IH"(1) [OF None this] show ?thesis .
  next
    case (Some row)
    show ?thesis
    proof (cases "find_summary w (sq_id row)")
      case (Some cached)
      with "2.prems" \<open>find_sub_question w question = Some row\<close>
      have "analyze_loop e rest
              (dict_set analyzed question
                 \<lparr>summary = sm_summary_json cached, an_urls = urls data\<rparr>) w = (res, w')"
        by simp
      from "2.IH"(3) [OF \<open>find_sub_question w question = Some row\<close> Some this]
      show ?thesis .
    next
      case None
      let ?w1 = "emit (Summarize question (snippets data)) w"
      show ?thesis
      proof (cases "analyzer_llm e (length (trace w)) question (snippets data)")
        case nocontent: None
        with "2.prems" \<open>find_sub_question w question = Some row\<close> None
        have "res = Inl CompletionError" "w' = ?w1"
          by (simp_all add: Let_def)
        then show ?thesis
          using nocontent by (auto simp: emit_def)
      next
        case (Some content)
        let ?w2 = "insert_summary (sq_id row) (parse_summary e content) ?w1"
        from "2.prems" \<open>find_sub_question w question = Some row\<close> None Some
        have run: "analyze_loop e rest
                (dict_set analyzed question
                   \<lparr>summary = parse_summary e content, an_urls = urls data\<rparr>) ?w2 = (res, w')"
          by (simp add: Let_def)
        from "2.IH"(2) [OF \<open>find_sub_question w question = Some row\<close> None refl Some run]
        have ih: "research_runs w' = research_runs ?w2 \<and> sub_questions w' = sub_questions ?w2 \<and>
           search_results w' = search_results ?w2 \<and> judge_evaluations w' = judge_evaluations ?w2 \<and>
           (\<exists>evs. trace w' = trace ?w2 @ evs \<and> (\<forall>ev \<in> set evs. \<exists>q s. ev = Summarize q s)) \<and>
           ((\<forall>n q s. analyzer_llm e n q s \<noteq> None) \<longrightarrow> (\<exists>an. res = Inr an))" .
        then obtain evs where evs: "trace w' = trace ?w2 @ evs"
          "\<forall>ev \<in> set evs. \<exists>q s. ev = Summarize q s"
          by blast
        have "trace w' = trace w @ (Summarize question (snippets data) # evs)"
          using evs(1) by (simp add: insert_summary_def emit_def)
        moreover have "\<forall>ev \<in> set (Summarize question (snippets data) # evs). \<exists>q s. ev = Summarize q s"
          using evs(2) by simp
        ultimately have "\<exists>evs. trace w' = trace w @ evs \<and> (\<forall>ev \<in> set evs. \<exists>q s. ev = Summarize q s)"
          by blast
        then show ?thesis
          using ih by (simp add: insert_summary_def emit_def)
      qed
    qed
  qed
qed

lemma analyze_loop_unmatched:
  "\<forall>p \<in> set sr. find_sub_question w (fst p) = None \<Longrightarrow> analyze_loop e sr acc w = (Inr acc, w)"
  by (induction sr) auto

lemma generate_final_answer_effect:
  "generate_final_answer e oq an w = (res, w') \<Longrightarrow>
     research_runs w' = research_runs w \<and> sub_questions w' = sub_questions w \<and>
     search_results w' = search_results w \<and>
     sub_question_summaries w' = sub_question_summaries w \<and>
     judge_evaluations w' = judge_evaluations w \<and>
     trace w' = trace w @ [Synthesize oq (summaries_text an)] \<and>
     ((\<forall>n q s. final_llm e n q s \<noteq> None) \<longrightarrow> (\<exists>a. res = Inr a))"
proof (cases "final_llm e (length (trace w)) oq (summaries_text an)")
  case None
  assume "generate_final_answer e oq an w = (res, w')"
  with None show ?thesis
    by (auto simp: generate_final_answer_def emit_def Let_def) (metis option.distinct(1))
next
  case (Some a)
  assume "generate_final_answer e oq an w = (res, w')"
  with Some show ?thesis
    by (auto simp: generate_final_answer_def emit_def Let_def)
qed

lemma run_judge_effect:
  "run_judge e oq qs answer rid w = (res, w') \<Longrightarrow>
     research_runs w' = research_runs w \<and> sub_questions w' = sub_questions w \<and>
     search_results w' = search_results w \<and>
     sub_question_summaries w' = sub_question_summaries w \<and>
     trace w' = trace w @ [Judge oq (str_join [newline] (map (\<lambda>q. ''- '' @ q) qs)) answer] \<and>
     (\<forall>jr. res = Inr jr \<longrightarrow>
        judge_chain e (length (trace w)) oq (str_join [newline] (map (\<lambda>q. ''- '' @ q) qs)) answer
          = Some jr) \<and>
     ((\<forall>n q b a. judge_chain e n q b a \<noteq> None) \<longrightarrow> (\<exists>jr. res = Inr jr))"
proof (cases "judge_chain e (length (trace w)) oq (str_join [newline] (map (\<lambda>q. ''- '' @ q) qs)) answer")
  case None
  assume "run_judge e oq qs answer rid w = (res, w')"
  with None show ?thesis
    by (auto simp: run_judge_def emit_def Let_def) (metis option.distinct(1))
next
  case (Some jr)
  assume "run_judge e oq qs answer rid w = (res, w')"
  with Some show ?thesis
    by (auto simp: run_judge_def emit_def Let_def)
qed

section \<open>One pass and the pass loop\<close>

lemma cache_hit_unknown: "sub_q_map w rid q = None \<Longrightarrow> \<not> cache_hit w rid q"
  by (simp add: cache_hit_def hit_with_def)

lemma cache_hit_kept:
  assumes "cache_hit w rid q" and "sub_questions w' = sub_questions w"
    and "search_results w' = search_results w @ rows"
  shows "cache_hit w' rid q"
  using assms
  by (auto simp: cache_hit_def hit_with_def sub_q_map_def stored_rows_def split: option.splits)

lemma run_pipeline_effect:
  assumes r: "run_pipeline e oq base fu rid w = (res, w')"
  shows "research_runs w' = research_runs w \<and> sub_questions w' = sub_questions w \<and>
         judge_evaluations w' = judge_evaluations w \<and>
         (\<exists>rows. search_results w' = search_results w @ rows) \<and>
         (\<exists>evs. trace w' = trace w @
              map (\<lambda>q. Search q 5) (filter (\<lambda>q. \<not> cache_hit w rid q) (fromkeys (base @ fu))) @ evs \<and>
            (\<forall>ev \<in> set evs. (\<exists>q s. ev = Summarize q s) \<or> (\<exists>q s. ev = Synthesize q s))) \<and>
         (never_fails e \<longrightarrow> (\<exists>a. res = Inr a))"
proof -
  obtain gres w1 where g: "gather_evidence e base fu rid w = (gres, w1)"
    by (metis prod.exhaust)
  note ge = gather_evidence_effect [OF g]
  show ?thesis
  proof (cases gres)
    case (Inl err)
    then have "res = Inl err" "w' = w1"
      using r g by (simp_all add: run_pipeline_def)
    moreover have "\<not> never_fails e"
      using ge(9) Inl by (auto simp: never_fails_def)
    ultimately show ?thesis
      using ge(1-6) by auto
  next
    case (Inr sr)
    obtain ares w2 where a: "analyze_sub_questions e sr w1 = (ares, w2)"
      by (metis prod.exhaust)
    note ae = analyze_loop_effect [OF a [unfolded analyze_sub_questions_def]]
    then obtain evs1 where evs1: "trace w2 = trace w1 @ evs1"
      "\<forall>ev \<in> set evs1. \<exists>q s. ev = Summarize q s"
      by blast
    show ?thesis
    proof (cases ares)
      case (Inl err)
      then have "res = Inl err" "w' = w2"
        using r g a \<open>gres = Inr sr\<close> by (simp_all add: run_pipeline_def)
      moreover have "\<not> never_fails e"
        using ae Inl by (auto simp: never_fails_def)
      moreover have "\<forall>ev \<in> set evs1. (\<exists>q s. ev = Summarize q s) \<or> (\<exists>q s. ev = Synthesize q s)"
        using evs1(2) by blast
      ultimately show ?thesis
        using ge(1-6) ae evs1(1) by auto
    next
      case (Inr an)
      then have f: "generate_final_answer e oq an w2 = (res, w')"
        using r g a \<open>gres = Inr sr\<close> by (simp add: run_pipeline_def)
      note fe = generate_final_answer_effect [OF f]
      have tr: "trace w' = trace w @
              map (\<lambda>q. Search q 5) (filter (\<lambda>q. \<not> cache_hit w rid q) (fromkeys (base @ fu))) @
              (evs1 @ [Synthesize oq (summaries_text an)])"
        using fe evs1(1) ge(1) by simp
      have evs: "\<forall>ev \<in> set (evs1 @ [Synthesize oq (summaries_text an)]).
                   (\<exists>q s. ev = Summarize q s) \<or> (\<exists>q s. ev = Synthesize q s)"
        using evs1(2) by auto
      have tot: "never_fails e \<longrightarrow> (\<exists>a. res = Inr a)"
        using fe by (simp add: never_fails_def)
      have "\<exists>rows. search_results w' = search_results w @ rows"
        using fe ae ge(6) by auto
      then show ?thesis
        using fe ae ge(2,3,5) tr evs tot by (metis (no_types, lifting))
    qed
  qed
qed

lemma pass_loop_Cons_cases:
  assumes "pass_loop e query rid base (i # rest) st w = (res, w')"
  obtains (pipeline_error) err where
      "run_pipeline e query (fst (pass_questions i base (follow_up_questions st)))
         (snd (pass_questions i base (follow_up_questions st))) rid (emit (PassBanner i) w)
         = (Inl err, w')" "res = Inl err"
  | (judge_error) answer w1 err where
      "run_pipeline e query (fst (pass_questions i base (follow_up_questions st)))
         (snd (pass_questions i base (follow_up_questions st))) rid (emit (PassBanner i) w)
         = (Inr answer, w1)"
      "run_judge e query (base @ follow_up_questions st) answer rid w1 = (Inl err, w')"
      "res = Inl err"
  | (stop) answer w1 jr where
      "run_pipeline e query (fst (pass_questions i base (follow_up_questions st)))
         (snd (pass_questions i base (follow_up_questions st))) rid (emit (PassBanner i) w)
         = (Inr answer, w1)"
      "run_judge e query (base @ follow_up_questions st) answer rid w1 = (Inr jr, w')"
      "confidence_score jr \<ge> CONFIDENCE_THRESHOLD"
      "res = Inr (st\<lparr>final_answer := Some answer, judge_res := Some jr\<rparr>)"
  | (continue) answer w1 jr w2 where
      "run_pipeline e query (fst (pass_questions i base (follow_up_questions st)))
         (snd (pass_questions i base (follow_up_questions st))) rid (emit (PassBanner i) w)
         = (Inr answer, w1)"
      "run_judge e query (base @ follow_up_questions st) answer rid w1 = (Inr jr, w2)"
      "\<not> confidence_score jr \<ge> CONFIDENCE_THRESHOLD"
      "pass_loop e query rid base rest
         (st\<lparr>follow_up_questions :=
               extend_followups (follow_up_questions st) (recommended_follow_up jr),
             final_answer := Some answer, judge_res := Some jr\<rparr>) w2 = (res, w')"
  using assms
  by (auto simp: Let_def split: prod.splits sum.splits if_splits)


lemma quiet_events:
  assumes "\<forall>ev \<in> set evs. (\<exists>q s. ev = Summarize q s) \<or> (\<exists>q s. ev = Synthesize q s)"
  shows "filter is_banner evs = []" and "filter (is_search_for q) evs = []"
  using assms by (auto simp: filter_empty_conv)

lemma search_events:
  "filter is_banner (map (\<lambda>q. Search q k) xs) = []"
  "q \<notin> set xs \<Longrightarrow> filter (is_search_for q) (map (\<lambda>q. Search q k) xs) = []"
  by (auto simp: filter_empty_conv)

lemma cache_hit_emit [simp]: "cache_hit (emit ev w) rid q = cache_hit w rid q"
  by (simp add: cache_hit_def hit_with_def sub_q_map_def stored_rows_def emit_def
        split: option.splits)

text \<open>The research half of a pass, started after the banner of the pass.\<close>

lemma banner_pipeline_effect:
  assumes r: "run_pipeline e oq bq fq rid (emit (PassBanner i) w) = (res, w1)"
  shows "research_runs w1 = research_runs w \<and> sub_questions w1 = sub_questions w \<and>
         judge_evaluations w1 = judge_evaluations w \<and>
         (\<exists>rows. search_results w1 = search_results w @ rows) \<and>
         (\<exists>evs. trace w1 = trace w @ PassBanner i # evs \<and> filter is_banner evs = [] \<and>
            (cache_hit w rid q \<longrightarrow> filter (is_search_for q) evs = []))"
proof -
  let ?missing = "filter (\<lambda>q. \<not> cache_hit (emit (PassBanner i) w) rid q) (fromkeys (bq @ fq))"
  from run_pipeline_effect [OF r] obtain rows evs where
    t: "research_runs w1 = research_runs (emit (PassBanner i) w)"
       "sub_questions w1 = sub_questions (emit (PassBanner i) w)"
       "judge_evaluations w1 = judge_evaluations (emit (PassBanner i) w)"
       "search_results w1 = search_results (emit (PassBanner i) w) @ rows"
    and tr: "trace w1 = trace (emit (PassBanner i) w) @ map (\<lambda>q. Search q 5) ?missing @ evs"
    and ev: "\<forall>ev \<in> set evs. (\<exists>q s. ev = Summarize q s) \<or> (\<exists>q s. ev = Synthesize q s)"
    by blast
  have "trace w1 = trace w @ PassBanner i # (map (\<lambda>q. Search q 5) ?missing @ evs)"
    using tr by (simp add: emit_def)
  moreover have "filter is_banner (map (\<lambda>q. Search q 5) ?missing @ evs) = []"
    using quiet_events(1) [OF ev] search_events(1) [of 5 ?missing] by simp
  moreover have "filter (is_search_for q) (map (\<lambda>q. Search q 5) ?missing @ evs) = []"
    if "cache_hit w rid q"
  proof -
    have "q \<notin> set ?missing" using that by simp
    then show ?thesis
      using quiet_events(2) [OF ev, of q] search_events(2) [of q ?missing 5] by simp
  qed
  ultimately show ?thesis
    using t by (auto simp: emit_def)
qed

lemma pass_loop_effect:
  "pass_loop e query rid base passes st w = (res, w') \<Longrightarrow>
     research_runs w' = research_runs w \<and> sub_questions w' = sub_questions w \<and>
     (\<exists>rows. search_results w' = search_results w @ rows) \<and>
     (\<exists>evs. trace w' = trace w @ evs \<and> length (filter is_banner evs) \<le> length passes \<and>
        (cache_hit w rid q \<longrightarrow> filter (is_search_for q) evs = []))"
proof (induction passes arbitrary: st w)
  case Nil
  then show ?case by simp
next
  case (Cons i rest)
  let ?bq = "fst (pass_questions i base (follow_up_questions st))"
  let ?fq = "snd (pass_questions i base (follow_up_questions st))"
  from Cons.prems show ?case
  proof (cases rule: pass_loop_Cons_cases)
    case (pipeline_error err)
    from banner_pipeline_effect [OF pipeline_error(1), of q] show ?thesis
      by (auto simp: filter_empty_conv)
  next
    case (judge_error answer w1 err)
    from banner_pipeline_effect [OF judge_error(1), of q] obtain rows evs where
      a: "research_runs w1 = research_runs w" "sub_questions w1 = sub_questions w"
         "search_results w1 = search_results w @ rows"
         "trace w1 = trace w @ PassBanner i # evs" "filter is_banner evs = []"
         "cache_hit w rid q \<longrightarrow> filter (is_search_for q) evs = []"
      by blast
    from run_judge_effect [OF judge_error(2)] obtain block where
      b: "research_runs w' = research_runs w1" "sub_questions w' = sub_questions w1"
         "search_results w' = search_results w1"
         "trace w' = trace w1 @ [Judge query block answer]"
      by blast
    have "trace w' = trace w @ (PassBanner i # evs @ [Judge query block answer])"
      using a(4) b(4) by simp
    moreover have "length (filter is_banner (PassBanner i # evs @ [Judge query block answer]))
                     \<le> length (i # rest)"
      using a(5) by simp
    moreover have "cache_hit w rid q \<longrightarrow>
        filter (is_search_for q) (PassBanner i # evs @ [Judge query block answer]) = []"
      using a(6) by simp
    ultimately show ?thesis
      using a(1-3) b(1-3) by (metis (no_types, lifting))
  next
    case (stop answer w1 jr)
    from banner_pipeline_effect [OF stop(1), of q] obtain rows evs where
      a: "research_runs w1 = research_runs w" "sub_questions w1 = sub_questions w"
         "search_results w1 = search_results w @ rows"
         "trace w1 = trace w @ PassBanner i # evs" "filter is_banner evs = []"
         "cache_hit w rid q \<longrightarrow> filter (is_search_for q) evs = []"
      by blast
    from run_judge_effect [OF stop(2)] obtain block where
      b: "research_runs w' = research_runs w1" "sub_questions w' = sub_questions w1"
         "search_results w' = search_results w1"
         "trace w' = trace w1 @ [Judge query block answer]"
      by blast
    have "trace w' = trace w @ (PassBanner i # evs @ [Judge query block answer])"
      using a(4) b(4) by simp
    moreover have "length (filter is_banner (PassBanner i # evs @ [Judge query block answer]))
                     \<le> length (i # rest)"
      using a(5) by simp
    moreover have "cache_hit w rid q \<longrightarrow>
        filter (is_search_for q) (PassBanner i # evs @ [Judge query block answer]) = []"
      using a(6) by simp
    ultimately show ?thesis
      using a(1-3) b(1-3) by (metis (no_types, lifting))
  next
    case (continue answer w1 jr w2)
    from banner_pipeline_effect [OF continue(1), of q] obtain rows evs where
      a: "research_runs w1 = research_runs w" "sub_questions w1 = sub_questions w"
         "search_results w1 = search_results w @ rows"
         "trace w1 = trace w @ PassBanner i # evs" "filter is_banner evs = []"
         "cache_hit w rid q \<longrightarrow> filter (is_search_for q) evs = []"
      by blast
    from run_judge_effect [OF continue(2)] obtain block where
      b: "research_runs w2 = research_runs w1" "sub_questions w2 = sub_questions w1"
         "search_results w2 = search_results w1"
         "trace w2 = trace w1 @ [Judge query block answer]"
      by blast
    from Cons.IH [OF continue(4)] obtain rows' evs' where
      c: "research_runs w' = research_runs w2" "sub_questions w' = sub_questions w2"
         "search_results w' = search_results w2 @ rows'"
         "trace w' = trace w2 @ evs'" "length (filter is_banner evs') \<le> length rest"
         "cache_hit w2 rid q \<longrightarrow> filter (is_search_for q) evs' = []"
      by blast
    have keep: "cache_hit w rid q \<longrightarrow> cache_hit w2 rid q"
      using cache_hit_kept [of w rid q w2 rows] a(2,3) b(2,3) by simp
    have "trace w' = trace w @ (PassBanner i # evs @ Judge query block answer # evs')"
      using a(4) b(4) c(4) by simp
    moreover have "length (filter is_banner (PassBanner i # evs @ Judge query block answer # evs'))
                     \<le> length (i # rest)"
      using a(5) c(5) by simp
    moreover have "cache_hit w rid q \<longrightarrow>
        filter (is_search_for q) (PassBanner i # evs @ Judge query block answer # evs') = []"
      using a(6) c(6) keep by simp
    moreover have "search_results w' = search_results w @ (rows @ rows')"
      using a(3) b(3) c(3) by simp
    ultimately show ?thesis
      using a(1,2) b(1,2) c(1,2) by (metis (no_types, lifting))
  qed
qed

section \<open>The evidence cache\<close>

lemma map_of_unique_value:
  "(k, v) \<in> set xs \<Longrightarrow> \<forall>p \<in> set xs. fst p = k \<longrightarrow> snd p = v \<Longrightarrow> map_of xs k = Some v"
  by (induction xs) auto

text \<open>
  A row of the run with a truthy id and a stored row of mode "depth" is a cache hit for its
  text when no other row of the run carries the same text.
\<close>

lemma cache_hit_of_row:
  assumes r: "r \<in> set (sub_questions w)" "sq_research_run_id r = rid" "sq_sub_question r = q"
    and only: "\<forall>r' \<in> set (sub_questions w).
                 sq_research_run_id r' = rid \<and> sq_sub_question r' = q \<longrightarrow> r' = r"
    and stored: "sq_id r \<noteq> 0" "stored_rows w (sq_id r) ''depth'' \<noteq> []"
  shows "cache_hit w rid q"
proof -
  let ?xs = "rev (map (\<lambda>r. (sq_sub_question r, sq_id r))
                    (filter (\<lambda>r. sq_research_run_id r = rid) (sub_questions w)))"
  have "(q, sq_id r) \<in> set ?xs"
    using r by force
  moreover have "\<forall>p \<in> set ?xs. fst p = q \<longrightarrow> snd p = sq_id r"
    using only by auto
  ultimately have "sub_q_map w rid q = Some (sq_id r)"
    unfolding sub_q_map_def by (rule map_of_unique_value)
  then show ?thesis
    using stored by (simp add: cache_hit_def hit_with_def)
qed

lemma new_events_append: "trace w' = trace w @ evs \<Longrightarrow> new_events w w' = evs"
  by (simp add: new_events_def)

text \<open>
  C8, as amended. A question of the input that the id map of the run does not know is not
  skipped from search: the call issues a search for it and its evidence is part of the
  result. It is skipped from storage only: no search result row is stored for it. The
  condition is not fatal: when the search capability does not raise, the call returns an
  entry for every input question.
\<close>

theorem unknown_question_searched_not_stored:
  assumes unknown: "sub_q_map w rid q = None"
    and inp: "q \<in> set (base @ fu)"
    and g: "gather_evidence e base fu rid w = (res, w')"
  shows "Search q 5 \<in> set (new_events w w') \<and>
         filter (\<lambda>r. sr_search_query r = q) (search_results w') =
           filter (\<lambda>r. sr_search_query r = q) (search_results w) \<and>
         ((\<forall>n q k. tavily_client_search e n q k \<noteq> None) \<longrightarrow>
            (\<exists>sr. res = Inr sr \<and> fst ` set sr = set (base @ fu)))"
proof -
  note ge = gather_evidence_effect [OF g]
  have "new_events w w' =
          map (\<lambda>q. Search q 5) (filter (\<lambda>q. \<not> cache_hit w rid q) (fromkeys (base @ fu)))"
    using ge(1) by (rule new_events_append)
  moreover have "q \<in> set (filter (\<lambda>q. \<not> cache_hit w rid q) (fromkeys (base @ fu)))"
    using inp cache_hit_unknown [OF unknown] by (simp add: set_fromkeys)
  ultimately have searched: "Search q 5 \<in> set (new_events w w')"
    by auto
  from ge(6) obtain rows where rows: "search_results w' = search_results w @ rows"
    "\<forall>r \<in> set rows. sub_q_map w rid (sr_search_query r) = Some (sr_sub_question_id r)"
    by blast
  have "filter (\<lambda>r. sr_search_query r = q) rows = []"
    using rows(2) unknown by (auto simp: filter_empty_conv)
  then have stored: "filter (\<lambda>r. sr_search_query r = q) (search_results w') =
           filter (\<lambda>r. sr_search_query r = q) (search_results w)"
    using rows(1) by simp
  have "\<exists>sr. res = Inr sr \<and> fst ` set sr = set (base @ fu)"
    if "\<forall>n q k. tavily_client_search e n q k \<noteq> None"
    using ge(9) [OF that] ge(7) by blast
  then show ?thesis
    using searched stored by blast
qed

theorem unknown_question_searched_not_stored_witness:
  "sub_q_map stored_world ''r'' ''x?'' = None \<and>
   ''x?'' \<in> set ([''a?'', ''x?''] @ []) \<and>
   Search ''x?'' 5 \<in> set (new_events stored_world
      (snd (gather_evidence (sample_env 1 []) [''a?'', ''x?''] [] ''r'' stored_world))) \<and>
   filter (\<lambda>r. sr_search_query r = ''x?'')
     (search_results (snd (gather_evidence (sample_env 1 []) [''a?'', ''x?''] [] ''r'' stored_world)))
     = filter (\<lambda>r. sr_search_query r = ''x?'') (search_results stored_world) \<and>
   (\<exists>sr. fst (gather_evidence (sample_env 1 []) [''a?'', ''x?''] [] ''r'' stored_world) = Inr sr \<and>
      fst ` set sr = set ([''a?'', ''x?''] @ []))"
proof -
  have unknown: "sub_q_map stored_world ''r'' ''x?'' = None"
    by (simp add: sub_q_map_def stored_world_def)
  have inp: "''x?'' \<in> set ([''a?'', ''x?''] @ [])"
    by simp
  have tot: "\<forall>n q k. tavily_client_search (sample_env 1 []) n q k \<noteq> None"
    by (simp add: sample_env_def)
  obtain res w' where
    g: "gather_evidence (sample_env 1 []) [''a?'', ''x?''] [] ''r'' stored_world = (res, w')"
    by (metis prod.exhaust)
  show ?thesis
    using unknown inp tot unknown_question_searched_not_stored [OF unknown inp g]
    by (simp add: g)
qed

text \<open>
  C8 as stated fails: with no sub-question row at all, gathering evidence for "x?" issues
  the search call for "x?".
\<close>

theorem unknown_question_search_counterexample:
  "sub_q_map empty_world ''r'' ''x?'' = None \<and>
   Search ''x?'' 5 \<in> set (new_events empty_world
      (snd (gather_evidence (sample_env 1 []) [''x?''] [] ''r'' empty_world)))"
  by code_simp

text \<open>
  C4. Let the id map of the run resolve a question to a row with at least one stored
  search result of mode "depth". Then a call of the evidence gathering issues no search
  for the question, returns for it the URLs and snippets assembled from the stored rows,
  and leaves the question cached; and a run of the pass loop, over any number of passes,
  issues no search for it either.
\<close>

theorem cached_question_never_searched:
  assumes hit: "cache_hit w rid q"
    and g: "gather_evidence e base fu rid w = (res, w')"
    and l: "pass_loop e2 query rid base2 passes st w = (lres, lw)"
  shows "filter (is_search_for q) (new_events w w') = [] \<and>
         cache_hit w' rid q \<and>
         (\<forall>sr. res = Inr sr \<and> q \<in> set (base @ fu) \<longrightarrow>
            map_of sr q = Some (cached_evidence (stored_rows w (the (sub_q_map w rid q)) ''depth''))) \<and>
         filter (is_search_for q) (new_events w lw) = [] \<and>
         cache_hit lw rid q"
proof -
  note ge = gather_evidence_effect [OF g]
  have "new_events w w' =
          map (\<lambda>q. Search q 5) (filter (\<lambda>q. \<not> cache_hit w rid q) (fromkeys (base @ fu)))"
    using ge(1) by (rule new_events_append)
  moreover have "q \<notin> set (filter (\<lambda>q. \<not> cache_hit w rid q) (fromkeys (base @ fu)))"
    using hit by simp
  ultimately have a: "filter (is_search_for q) (new_events w w') = []"
    using search_events(2) by simp
  from ge(6) obtain rows where "search_results w' = search_results w @ rows"
    by blast
  then have b: "cache_hit w' rid q"
    using cache_hit_kept [OF hit ge(3)] by blast
  have c: "\<forall>sr. res = Inr sr \<and> q \<in> set (base @ fu) \<longrightarrow>
            map_of sr q = Some (cached_evidence (stored_rows w (the (sub_q_map w rid q)) ''depth''))"
    using ge(8) hit by blast
  from pass_loop_effect [OF l, of q] obtain rows' evs where
    pl: "sub_questions lw = sub_questions w" "search_results lw = search_results w @ rows'"
      "trace lw = trace w @ evs" "cache_hit w rid q \<longrightarrow> filter (is_search_for q) evs = []"
    by blast
  have d: "filter (is_search_for q) (new_events w lw) = []"
    using new_events_append [OF pl(3)] pl(4) hit by simp
  have "cache_hit lw rid q"
    using cache_hit_kept [OF hit pl(1,2)] .
  then show ?thesis
    using a b c d by blast
qed

theorem cached_question_never_searched_witness:
  "cache_hit stored_world ''r'' ''a?'' \<and>
   filter (is_search_for ''a?'') (new_events stored_world
      (snd (gather_evidence (sample_env 1 []) [''a?'', ''x?''] [] ''r'' stored_world))) = [] \<and>
   (\<exists>sr. fst (gather_evidence (sample_env 1 []) [''a?'', ''x?''] [] ''r'' stored_world) = Inr sr \<and>
      map_of sr ''a?'' = Some \<lparr>urls = [''http://a''], snippets = ''- title | text''\<rparr>) \<and>
   filter (is_search_for ''a?'') (new_events stored_world
      (snd (pass_loop (sample_env (1 / 2) [''a?'']) ''q'' ''r'' [''a?''] [0 ..< MAX_PASSES]
             initial_state stored_world))) = []"
proof -
  have hit: "cache_hit stored_world ''r'' ''a?''"
    by code_simp
  have ev: "cached_evidence (stored_rows stored_world (the (sub_q_map stored_world ''r'' ''a?'')) ''depth'')
              = \<lparr>urls = [''http://a''], snippets = ''- title | text''\<rparr>"
    by code_simp
  have tot: "\<forall>n q k. tavily_client_search (sample_env 1 []) n q k \<noteq> None"
    by (simp add: sample_env_def)
  obtain res w' where
    g: "gather_evidence (sample_env 1 []) [''a?'', ''x?''] [] ''r'' stored_world = (res, w')"
    by (metis prod.exhaust)
  obtain lres lw where
    l: "pass_loop (sample_env (1 / 2) [''a?'']) ''q'' ''r'' [''a?''] [0 ..< MAX_PASSES]
             initial_state stored_world = (lres, lw)"
    by (metis prod.exhaust)
  from gather_evidence_effect(9) [OF g tot] obtain sr where sr: "res = Inr sr"
    by blast
  show ?thesis
    using hit cached_question_never_searched [OF hit g l] sr
    by (simp add: g l ev)
qed

section \<open>Follow-up passes\<close>

lemma find_sub_question_None:
  "find_sub_question w q = None \<longleftrightarrow> (\<forall>r \<in> set (sub_questions w). sq_sub_question r \<noteq> q)"
  by (auto simp: find_sub_question_def find_None_iff)

lemma unmatched_unknown:
  "find_sub_question w q = None \<Longrightarrow> sub_q_map w rid q = None"
  by (simp add: find_sub_question_None sub_q_map_None)

lemma find_sub_question_same:
  "sub_questions w' = sub_questions w \<Longrightarrow> find_sub_question w' q = find_sub_question w q"
  by (simp add: find_sub_question_def)

text \<open>
  C2. On a pass with index at least 1 the questions handed to \<open>run_pipeline\<close> are the
  accumulated follow-ups and nothing else. If no row of \<open>sub_questions\<close> carries the text
  of any of them, the call stores no search result; and when the evidence gathering
  returns, the analysis of its result is the empty mapping, the block of summaries is the
  empty text, and the candidate answer is what the synthesis capability returns for the
  original query and that empty block.
\<close>

theorem followup_pass_without_rows:
  assumes idx: "1 \<le> pass_idx"
    and pq: "pass_questions pass_idx base follow_ups = (base_qs, follow_qs)"
    and unmatched: "\<forall>q \<in> set follow_ups. find_sub_question w q = None"
    and r: "run_pipeline e query base_qs follow_qs rid w = (res, w')"
  shows "base_qs = [] \<and> follow_qs = follow_ups \<and>
         search_results w' = search_results w \<and>
         (\<forall>sr w1. gather_evidence e base_qs follow_qs rid w = (Inr sr, w1) \<longrightarrow>
            analyze_sub_questions e sr w1 = (Inr [], w1) \<and>
            summaries_text [] = [] \<and>
            trace w' = trace w1 @ [Synthesize query []] \<and>
            res = (case final_llm e (length (trace w1)) query [] of
                     None \<Rightarrow> Inl CompletionError
                   | Some content \<Rightarrow> Inr content))"
proof -
  have qs: "base_qs = []" "follow_qs = follow_ups"
    using idx pq by (auto simp: pass_questions_def)
  obtain gres w1 where g: "gather_evidence e base_qs follow_qs rid w = (gres, w1)"
    by (metis prod.exhaust)
  note ge = gather_evidence_effect [OF g]
  from ge(6) obtain rows where rows: "search_results w1 = search_results w @ rows"
    "\<forall>r \<in> set rows. sr_search_query r \<in> set (base_qs @ follow_qs) \<and>
       sub_q_map w rid (sr_search_query r) = Some (sr_sub_question_id r)"
    by blast
  have "rows = []"
  proof (rule ccontr)
    assume "rows \<noteq> []"
    then obtain x where x: "x \<in> set rows"
      by (cases rows) auto
    then have "find_sub_question w (sr_search_query x) = None"
      using rows(2) unmatched qs by simp
    then show False
      using unmatched_unknown [of w "sr_search_query x" rid] rows(2) x by simp
  qed
  then have same1: "search_results w1 = search_results w"
    using rows(1) by simp
  have empty_text: "summaries_text [] = []"
    by (simp add: summaries_text_def)
  show ?thesis
  proof (cases gres)
    case (Inl err)
    then have "w' = w1"
      using r g by (simp add: run_pipeline_def)
    then show ?thesis
      using qs same1 g Inl by simp
  next
    case (Inr sr)
    have keys: "fst ` set sr = set follow_ups"
      using ge(7) [OF Inr] qs by simp
    have "\<forall>p \<in> set sr. find_sub_question w1 (fst p) = None"
    proof
      fix p assume "p \<in> set sr"
      then have "fst p \<in> set follow_ups"
        using keys by auto
      then show "find_sub_question w1 (fst p) = None"
        using unmatched find_sub_question_same [OF ge(3)] by simp
    qed
    then have an: "analyze_sub_questions e sr w1 = (Inr [], w1)"
      unfolding analyze_sub_questions_def by (rule analyze_loop_unmatched)
    then have f: "generate_final_answer e query [] w1 = (res, w')"
      using r g Inr by (simp add: run_pipeline_def)
    have tr: "trace w' = trace w1 @ [Synthesize query []]"
      and same2: "search_results w' = search_results w1"
      using generate_final_answer_effect [OF f] empty_text by simp_all
    have res: "res = (case final_llm e (length (trace w1)) query [] of
                     None \<Rightarrow> Inl CompletionError
                   | Some content \<Rightarrow> Inr content)"
      using f empty_text
      by (auto simp: generate_final_answer_def Let_def split: option.splits)
    show ?thesis
      using qs same1 same2 g Inr an empty_text tr res by simp
  qed
qed

theorem followup_pass_without_rows_witness:
  "(1::nat) \<le> 1 \<and>
   pass_questions 1 [''a?''] [''f?''] = ([], [''f?'']) \<and>
   find_sub_question stored_world ''f?'' = None \<and>
   search_results (snd (run_pipeline (sample_env 1 []) ''q'' [] [''f?''] ''r'' stored_world))
     = search_results stored_world \<and>
   (\<exists>sr w1. gather_evidence (sample_env 1 []) [] [''f?''] ''r'' stored_world = (Inr sr, w1) \<and>
      analyze_sub_questions (sample_env 1 []) sr w1 = (Inr [], w1) \<and>
      trace (snd (run_pipeline (sample_env 1 []) ''q'' [] [''f?''] ''r'' stored_world))
        = trace w1 @ [Synthesize ''q'' []] \<and>
      fst (run_pipeline (sample_env 1 []) ''q'' [] [''f?''] ''r'' stored_world) = Inr ''answer'')"
proof -
  have idx: "(1::nat) \<le> 1"
    by simp
  have pq: "pass_questions 1 [''a?''] [''f?''] = ([], [''f?''])"
    by (simp add: pass_questions_def)
  have none: "find_sub_question stored_world ''f?'' = None"
    by (simp add: find_sub_question_def stored_world_def)
  then have unmatched: "\<forall>q \<in> set [''f?'']. find_sub_question stored_world q = None"
    by simp
  obtain res w' where
    r: "run_pipeline (sample_env 1 []) ''q'' [] [''f?''] ''r'' stored_world = (res, w')"
    by (metis prod.exhaust)
  have tot: "\<forall>n q k. tavily_client_search (sample_env 1 []) n q k \<noteq> None"
    by (simp add: sample_env_def)
  obtain gres w1 where
    g: "gather_evidence (sample_env 1 []) [] [''f?''] ''r'' stored_world = (gres, w1)"
    by (metis prod.exhaust)
  from gather_evidence_effect(9) [OF g tot] obtain sr where sr: "gres = Inr sr"
    by blast
  have llm: "final_llm (sample_env 1 []) (length (trace w1)) ''q'' [] = Some ''answer''"
    by (simp add: sample_env_def)
  show ?thesis
    using idx pq none followup_pass_without_rows [OF idx pq unmatched r] g sr llm
    by (simp add: r)
qed

section \<open>The orchestrator loop\<close>

lemma pass_loop_followups:
  "pass_loop e query rid base passes st w = (Inr st', w') \<Longrightarrow>
     \<exists>added. follow_up_questions st' = follow_up_questions st @ added"
proof (induction passes arbitrary: st w)
  case Nil
  then show ?case by simp
next
  case (Cons i rest)
  from Cons.prems show ?case
  proof (cases rule: pass_loop_Cons_cases)
    case (stop answer w1 jr)
    then show ?thesis by auto
  next
    case (continue answer w1 jr w2)
    from Cons.IH [OF continue(4)] show ?thesis
      by (auto simp: extend_followups_def)
  qed simp_all
qed

lemma pass_loop_last:
  "pass_loop e query rid base passes st w = (Inr st', w') \<Longrightarrow>
     (passes = [] \<and> st' = st \<and> w' = w) \<or>
     (\<exists>tr block answer jr. trace w' = tr @ [Judge query block answer] \<and>
        final_answer st' = Some answer \<and> judge_res st' = Some jr \<and>
        judge_chain e (length tr) query block answer = Some jr)"
proof (induction passes arbitrary: st w)
  case Nil
  then show ?case by simp
next
  case (Cons i rest)
  from Cons.prems show ?case
  proof (cases rule: pass_loop_Cons_cases)
    case (stop answer w1 jr)
    from run_judge_effect [OF stop(2)] stop(4) show ?thesis
      by auto
  next
    case (continue answer w1 jr w2)
    from Cons.IH [OF continue(4)] show ?thesis
    proof
      assume "rest = [] \<and>
        st' = st\<lparr>follow_up_questions :=
                   extend_followups (follow_up_questions st) (recommended_follow_up jr),
                 final_answer := Some answer, judge_res := Some jr\<rparr> \<and> w' = w2"
      with run_judge_effect [OF continue(2)] show ?thesis
        by auto
    next
      assume "\<exists>tr block answer jr. trace w' = tr @ [Judge query block answer] \<and>
        final_answer st' = Some answer \<and> judge_res st' = Some jr \<and>
        judge_chain e (length tr) query block answer = Some jr"
      then show ?thesis by simp
    qed
  qed simp_all
qed

lemma pass_loop_total:
  assumes nf: "never_fails e"
  shows "pass_loop e query rid base passes st w = (res, w') \<Longrightarrow> \<exists>st'. res = Inr st'"
proof (induction passes arbitrary: st w)
  case Nil
  then show ?case by auto
next
  case (Cons i rest)
  have jt: "\<forall>n q b a. judge_chain e n q b a \<noteq> None"
    using nf by (simp add: never_fails_def)
  from Cons.prems show ?case
  proof (cases rule: pass_loop_Cons_cases)
    case (pipeline_error err)
    from run_pipeline_effect [OF pipeline_error(1)] nf show ?thesis
      by auto
  next
    case (judge_error answer w1 err)
    from run_judge_effect [OF judge_error(2)] jt show ?thesis
      by auto
  next
    case (stop answer w1 jr)
    then show ?thesis by simp
  next
    case (continue answer w1 jr w2)
    from Cons.IH [OF continue(4)] show ?thesis .
  qed
qed

lemma pass_loop_exhaust:
  assumes nf: "never_fails e" and nc: "never_confident e"
  shows "pass_loop e query rid base passes st w = (res, w') \<Longrightarrow>
           length (filter is_banner (new_events w w')) = length passes"
proof (induction passes arbitrary: st w)
  case Nil
  then show ?case by (simp add: new_events_def)
next
  case (Cons i rest)
  have jt: "\<forall>n q b a. judge_chain e n q b a \<noteq> None"
    using nf by (simp add: never_fails_def)
  from Cons.prems show ?case
  proof (cases rule: pass_loop_Cons_cases)
    case (pipeline_error err)
    from run_pipeline_effect [OF pipeline_error(1)] nf show ?thesis
      by auto
  next
    case (judge_error answer w1 err)
    from run_judge_effect [OF judge_error(2)] jt show ?thesis
      by auto
  next
    case (stop answer w1 jr)
    from run_judge_effect [OF stop(2)] obtain n b where
      "judge_chain e n query b answer = Some jr"
      by blast
    then have "confidence_score jr < CONFIDENCE_THRESHOLD"
      using nc unfolding never_confident_def by blast
    with stop(3) show ?thesis
      by simp
  next
    case (continue answer w1 jr w2)
    from banner_pipeline_effect [OF continue(1), of undefined] obtain evs where
      a: "trace w1 = trace w @ PassBanner i # evs" "filter is_banner evs = []"
      by blast
    from run_judge_effect [OF continue(2)] obtain block where
      b: "trace w2 = trace w1 @ [Judge query block answer]"
      by blast
    from pass_loop_effect [OF continue(4), of undefined] obtain evs' where
      c: "trace w' = trace w2 @ evs'"
      by blast
    have "new_events w2 w' = evs'"
      using c by (rule new_events_append)
    then have n: "length (filter is_banner evs') = length rest"
      using Cons.IH [OF continue(4)] by simp
    have "trace w' = trace w @ (PassBanner i # evs @ Judge query block answer # evs')"
      using a(1) b c by simp
    then have "new_events w w' = PassBanner i # evs @ Judge query block answer # evs'"
      by (rule new_events_append)
    then show ?thesis
      using a(2) n by simp
  qed
qed

text \<open>
  C1, as amended. Take a pass whose research returns an answer and whose judge returns an
  evaluation below the threshold, and a recommended question that is not yet in the
  follow-up list. The loop goes on with the follow-up list extended, after its existing
  elements, by the recommendations not already present; the question is among them, and
  when the loop returns its follow-up list starts with the old list followed by those
  questions, so it holds the question. No SubQuestion record is created: the table of
  sub-questions after the loop is the table before the pass.
\<close>

theorem followups_stay_in_memory:
  assumes l: "pass_loop e query rid base (i # rest) st w = (res, w')"
    and rp: "run_pipeline e query (fst (pass_questions i base (follow_up_questions st)))
               (snd (pass_questions i base (follow_up_questions st))) rid
               (emit (PassBanner i) w) = (Inr answer, w1)"
    and rj: "run_judge e query (base @ follow_up_questions st) answer rid w1 = (Inr jr, w2)"
    and low: "confidence_score jr < CONFIDENCE_THRESHOLD"
    and recommended: "q \<in> set (recommended_follow_up jr)"
    and fresh: "q \<notin> set (follow_up_questions st)"
  shows "sub_questions w' = sub_questions w \<and>
         pass_loop e query rid base rest
           (st\<lparr>follow_up_questions :=
                 follow_up_questions st @
                   filter (\<lambda>x. x \<notin> set (follow_up_questions st)) (recommended_follow_up jr),
               final_answer := Some answer, judge_res := Some jr\<rparr>) w2 = (res, w') \<and>
         q \<in> set (filter (\<lambda>x. x \<notin> set (follow_up_questions st)) (recommended_follow_up jr)) \<and>
         (\<forall>st'. res = Inr st' \<longrightarrow>
            q \<in> set (follow_up_questions st') \<and>
            (\<exists>added. follow_up_questions st' =
               follow_up_questions st @
                 filter (\<lambda>x. x \<notin> set (follow_up_questions st)) (recommended_follow_up jr) @
                 added))"
proof -
  let ?new = "filter (\<lambda>x. x \<notin> set (follow_up_questions st)) (recommended_follow_up jr)"
  let ?st2 = "st\<lparr>follow_up_questions := follow_up_questions st @ ?new,
                final_answer := Some answer, judge_res := Some jr\<rparr>"
  have tables: "sub_questions w' = sub_questions w"
    using pass_loop_effect [OF l, of undefined] by simp
  have step: "pass_loop e query rid base rest ?st2 w2 = (res, w')"
    using l rp rj low
    by (simp add: Let_def case_prod_beta extend_followups_def new_followups_def)
  have accepted: "q \<in> set ?new"
    using recommended fresh by simp
  have final: "q \<in> set (follow_up_questions st') \<and>
      (\<exists>added. follow_up_questions st' = follow_up_questions st @ ?new @ added)"
    if "res = Inr st'" for st'
  proof -
    from pass_loop_followups [OF step [unfolded that]] obtain added where
      "follow_up_questions st' = follow_up_questions ?st2 @ added"
      by blast
    then have "follow_up_questions st' = follow_up_questions st @ ?new @ added"
      by simp
    then show ?thesis
      using accepted by auto
  qed
  show ?thesis
    using tables step accepted final by blast
qed

theorem followups_stay_in_memory_witness:
  "(\<exists>answer w1 jr w2.
      run_pipeline (sample_env (1 / 2) [''g?'', ''f?'']) ''q''
        (fst (pass_questions 1 [''a?''] [''g?''])) (snd (pass_questions 1 [''a?''] [''g?''])) ''r''
        (emit (PassBanner 1) stored_world) = (Inr answer, w1) \<and>
      run_judge (sample_env (1 / 2) [''g?'', ''f?'']) ''q'' ([''a?''] @ [''g?'']) answer ''r'' w1
        = (Inr jr, w2) \<and>
      confidence_score jr < CONFIDENCE_THRESHOLD \<and>
      ''f?'' \<in> set (recommended_follow_up jr)) \<and>
   ''f?'' \<notin> set [''g?''] \<and>
   sub_questions (snd (pass_loop (sample_env (1 / 2) [''g?'', ''f?'']) ''q'' ''r'' [''a?'']
       [1, 2] (initial_state\<lparr>follow_up_questions := [''g?'']\<rparr>) stored_world))
     = sub_questions stored_world \<and>
   (\<exists>st'. fst (pass_loop (sample_env (1 / 2) [''g?'', ''f?'']) ''q'' ''r'' [''a?'']
       [1, 2] (initial_state\<lparr>follow_up_questions := [''g?'']\<rparr>) stored_world) = Inr st' \<and>
      ''f?'' \<in> set (follow_up_questions st') \<and>
      follow_up_questions st' = [''g?'', ''f?''])"
proof -
  let ?e = "sample_env (1 / 2) [''g?'', ''f?'']"
  let ?st = "initial_state\<lparr>follow_up_questions := [''g?'']\<rparr>"
  have fu: "follow_up_questions ?st = [''g?'']"
    by simp
  have nf: "never_fails ?e"
    by (simp add: never_fails_def sample_env_def)
  obtain res w' where l: "pass_loop ?e ''q'' ''r'' [''a?''] (1 # [2]) ?st stored_world = (res, w')"
    by (metis prod.exhaust)
  obtain pres w1 where
    rp0: "run_pipeline ?e ''q'' (fst (pass_questions 1 [''a?''] (follow_up_questions ?st)))
            (snd (pass_questions 1 [''a?''] (follow_up_questions ?st))) ''r''
            (emit (PassBanner 1) stored_world) = (pres, w1)"
    by (metis prod.exhaust)
  from run_pipeline_effect [OF rp0] nf obtain answer where "pres = Inr answer"
    by blast
  note rp = rp0 [unfolded this]
  obtain jres w2 where
    rj0: "run_judge ?e ''q'' ([''a?''] @ follow_up_questions ?st) answer ''r'' w1 = (jres, w2)"
    by (metis prod.exhaust)
  from run_judge_effect [OF rj0] nf obtain jr where jr: "jres = Inr jr"
    by (auto simp: never_fails_def)
  note rj = rj0 [unfolded jr]
  from run_judge_effect [OF rj] obtain n b where "judge_chain ?e n ''q'' b answer = Some jr"
    by blast
  then have val: "jr = sample_judgement (1 / 2) [''g?'', ''f?'']"
    by (simp add: sample_env_def)
  have low: "confidence_score jr < CONFIDENCE_THRESHOLD"
    by (simp add: val sample_judgement_def CONFIDENCE_THRESHOLD_def)
  have recommended: "''f?'' \<in> set (recommended_follow_up jr)"
    by (simp add: val sample_judgement_def)
  have fresh: "''f?'' \<notin> set (follow_up_questions ?st)"
    by simp
  from pass_loop_total [OF nf l] obtain st' where st': "res = Inr st'"
    by blast
  have exact: "follow_up_questions st' = [''g?'', ''f?'']"
  proof -
    have "follow_up_questions (projr (fst (pass_loop ?e ''q'' ''r'' [''a?''] [1, 2] ?st stored_world)))
            = [''g?'', ''f?'']"
      by code_simp
    then show ?thesis
      by (simp only: l st' fst_conv sum.sel)
  qed
  from followups_stay_in_memory [OF l rp rj low recommended fresh] st'
  have same: "sub_questions w' = sub_questions stored_world"
    and member: "''f?'' \<in> set (follow_up_questions st')"
    by blast+
  have b: "''f?'' \<notin> set [''g?'']"
    by simp
  have c: "sub_questions (snd (pass_loop ?e ''q'' ''r'' [''a?''] [1, 2] ?st stored_world))
             = sub_questions stored_world"
    using same by (simp only: l snd_conv)
  have d0: "fst (pass_loop ?e ''q'' ''r'' [''a?''] [1, 2] ?st stored_world) = Inr st'"
    by (simp only: l fst_conv st')
  show ?thesis
    apply (intro conjI)
       apply (rule exI [of _ answer], rule exI [of _ w1], rule exI [of _ jr], rule exI [of _ w2])
       apply (intro conjI)
          apply (rule rp [unfolded fu])
         apply (rule rj [unfolded fu])
        apply (rule low)
       apply (rule recommended)
      apply (rule b)
     apply (rule c)
    apply (rule exI [of _ st'])
    apply (intro conjI)
      apply (rule d0)
     apply (rule member)
    apply (rule exact)
    done
qed

text \<open>
  C1 as stated fails: the judge recommends "f?" with confidence 0.5, the loop accepts it
  into its follow-up list, and after the three passes the table still holds the base
  question only.
\<close>

theorem followup_without_row_counterexample:
  "(case pass_loop (sample_env (1 / 2) [''f?'']) ''q'' ''r'' [''a?'']
          [0 ..< MAX_PASSES] initial_state stored_world of
      (Inr st, w') \<Rightarrow>
        follow_up_questions st = [''f?''] \<and> map sq_sub_question (sub_questions w') = [''a?'']
    | (Inl err, w') \<Rightarrow> False)"
  by code_simp

text \<open>
  C6. The loop runs over \<^verbatim>\<open>range(MAX_PASSES)\<close> with \<open>MAX_PASSES = 3\<close>; it is a total function
  defined by recursion on that list, so it returns for every environment, and it prints at
  most three pass banners. When it returns normally, the answer and the evaluation it
  returns are those of the last judge call of the trace. When no capability raises it
  returns normally, and when in addition the judge never reaches the threshold it runs
  exactly three passes.
\<close>

theorem pass_loop_bounded:
  assumes l: "pass_loop e query rid base [0 ..< MAX_PASSES] st w = (res, w')"
  shows "MAX_PASSES = 3 \<and>
         length (filter is_banner (new_events w w')) \<le> MAX_PASSES \<and>
         (\<forall>st'. res = Inr st' \<longrightarrow>
            (\<exists>tr block answer jr. trace w' = tr @ [Judge query block answer] \<and>
               final_answer st' = Some answer \<and> judge_res st' = Some jr \<and>
               judge_chain e (length tr) query block answer = Some jr)) \<and>
         (never_fails e \<longrightarrow> (\<exists>st'. res = Inr st')) \<and>
         (never_fails e \<and> never_confident e \<longrightarrow>
            length (filter is_banner (new_events w w')) = MAX_PASSES)"
proof -
  from pass_loop_effect [OF l, of undefined] obtain evs where
    evs: "trace w' = trace w @ evs" "length (filter is_banner evs) \<le> length [0 ..< MAX_PASSES]"
    by blast
  have a: "length (filter is_banner (new_events w w')) \<le> MAX_PASSES"
    using new_events_append [OF evs(1)] evs(2) by simp
  have ne: "[0 ..< MAX_PASSES] \<noteq> []"
    by (simp add: MAX_PASSES_def)
  have b: "\<exists>tr block answer jr. trace w' = tr @ [Judge query block answer] \<and>
               final_answer st' = Some answer \<and> judge_res st' = Some jr \<and>
               judge_chain e (length tr) query block answer = Some jr"
    if "res = Inr st'" for st'
    using pass_loop_last [OF l [unfolded that]] ne by blast
  have c: "never_fails e \<longrightarrow> (\<exists>st'. res = Inr st')"
    using pass_loop_total [OF _ l] by blast
  have d: "never_fails e \<and> never_confident e \<longrightarrow>
            length (filter is_banner (new_events w w')) = MAX_PASSES"
    using pass_loop_exhaust [OF _ _ l] by simp
  show ?thesis
    using a b c d by (simp add: MAX_PASSES_def)
qed

theorem pass_loop_bounded_witness:
  "never_fails (sample_env (1 / 2) [''f?'']) \<and> never_confident (sample_env (1 / 2) [''f?'']) \<and>
   length (filter is_banner (new_events stored_world
     (snd (pass_loop (sample_env (1 / 2) [''f?'']) ''q'' ''r'' [''a?'']
        [0 ..< MAX_PASSES] initial_state stored_world)))) = 3 \<and>
   (\<exists>st'. fst (pass_loop (sample_env (1 / 2) [''f?'']) ''q'' ''r'' [''a?'']
        [0 ..< MAX_PASSES] initial_state stored_world) = Inr st' \<and>
      (\<exists>tr block answer jr.
         trace (snd (pass_loop (sample_env (1 / 2) [''f?'']) ''q'' ''r'' [''a?'']
           [0 ..< MAX_PASSES] initial_state stored_world)) = tr @ [Judge ''q'' block answer] \<and>
         final_answer st' = Some answer \<and> judge_res st' = Some jr))"
proof -
  obtain res w' where l: "pass_loop (sample_env (1 / 2) [''f?'']) ''q'' ''r'' [''a?'']
       [0 ..< MAX_PASSES] initial_state stored_world = (res, w')"
    by (metis prod.exhaust)
  have nf: "never_fails (sample_env (1 / 2) [''f?''])"
    by (simp add: never_fails_def sample_env_def)
  have nc: "never_confident (sample_env (1 / 2) [''f?''])"
    by (simp add: never_confident_def sample_env_def sample_judgement_def
          CONFIDENCE_THRESHOLD_def)
  from pass_loop_bounded [OF l] nf nc have
    "length (filter is_banner (new_events stored_world w')) = 3"
    and "\<exists>st'. res = Inr st' \<and>
            (\<exists>tr block answer jr. trace w' = tr @ [Judge ''q'' block answer] \<and>
               final_answer st' = Some answer \<and> judge_res st' = Some jr)"
    by auto
  then show ?thesis
    using nf nc by (simp add: l)
qed

section \<open>The final answer of a run\<close>

lemma pick_latest_mem: "pick_latest rs = Some r \<Longrightarrow> r \<in> set rs"
  by (induction rs arbitrary: r) (auto split: option.splits if_splits)

lemma resolver_run_exists:
  assumes "research_decomposition_pipeline e query w = (Inr dec, w1)"
  shows "\<exists>r \<in> set (research_runs w1). rr_id r = out_run_id dec"
proof (cases "cached_run w query")
  case None
  from resolver_miss [OF None assms] show ?thesis
    by auto
next
  case (Some c)
  then have "c \<in> set (research_runs w)"
    using pick_latest_mem [of "filter (\<lambda>r. rr_original_query r = query) (research_runs w)" c]
    by (simp add: cached_run_def)
  then show ?thesis
    using assms unfolding resolver_hit [OF Some] by auto
qed

lemma updated_runs1:
  "(\<exists>x \<in> set (map (\<lambda>x. if rr_id x = rid then x\<lparr>rr_final_answer := a\<rparr> else x) rs).
      rr_id x = rid) \<longleftrightarrow> (\<exists>x \<in> set rs. rr_id x = rid)"
proof (induction rs)
  case Nil
  show ?case by simp
next
  case (Cons r rs)
  show ?case
  proof (cases "rr_id r = rid")
    case True
    then show ?thesis by simp
  next
    case False
    then show ?thesis using Cons.IH by simp
  qed
qed

lemma updated_runs2:
  "x \<in> set (map (\<lambda>x. if rr_id x = rid then x\<lparr>rr_final_answer := a\<rparr> else x) rs) \<Longrightarrow>
      rr_id x = rid \<Longrightarrow> rr_final_answer x = a"
proof (induction rs)
  case Nil
  then show ?case by simp
next
  case (Cons r rs)
  show ?case
  proof (cases "x = (if rr_id r = rid then r\<lparr>rr_final_answer := a\<rparr> else r)")
    case True
    then show ?thesis using Cons.prems(2) by (simp split: if_splits)
  next
    case False
    then show ?thesis using Cons by simp
  qed
qed

lemma run_returns:
  assumes "run e query w = (Inr out, w')"
  obtains dec w1 st w2 jr where
    "research_decomposition_pipeline e query w = (Inr dec, w1)"
    "pass_loop e query (out_run_id dec) (dc_sub_questions (out_decomposition dec))
       [0 ..< MAX_PASSES] initial_state w1 = (Inr st, w2)"
    "judge_res st = Some jr"
    "out = \<lparr>ro_query = query, ro_run_id = out_run_id dec,
            ro_final_answer = final_answer st, ro_judge_evaluation = jr\<rparr>"
    "w' = emit (StoreVector (out_run_id dec)) (emit (GenerateReport (out_run_id dec))
            (save_final_answer (out_run_id dec) (final_answer st) w2))"
  using assms
  by (auto simp: run_def Let_def split: prod.splits sum.splits option.splits if_splits)

text \<open>
  C9, as amended. When a run returns, the answer it returns is the one judged in the last
  executed pass, whether the threshold was met or the pass budget was exhausted. If that
  answer is not the empty text it is written to the \<open>final_answer\<close> field of the Run; if
  it is the empty text the update is skipped and the runs are as the decomposition left
  them.
\<close>

theorem last_answer_saved_when_nonempty:
  assumes r: "run e query w = (Inr out, w')"
  shows "\<exists>tr block answer.
           trace w' = tr @ [Judge query block answer, GenerateReport (ro_run_id out),
                            StoreVector (ro_run_id out)] \<and>
           ro_final_answer out = Some answer \<and>
           (answer \<noteq> [] \<longrightarrow>
              (\<exists>x \<in> set (research_runs w'). rr_id x = ro_run_id out) \<and>
              (\<forall>x \<in> set (research_runs w'). rr_id x = ro_run_id out \<longrightarrow>
                 rr_final_answer x = Some answer)) \<and>
           (answer = [] \<longrightarrow>
              research_runs w' = research_runs (snd (research_decomposition_pipeline e query w)))"
proof -
  from r obtain dec w1 st w2 jr where
    d: "research_decomposition_pipeline e query w = (Inr dec, w1)"
    and l: "pass_loop e query (out_run_id dec) (dc_sub_questions (out_decomposition dec))
       [0 ..< MAX_PASSES] initial_state w1 = (Inr st, w2)"
    and out: "out = \<lparr>ro_query = query, ro_run_id = out_run_id dec,
            ro_final_answer = final_answer st, ro_judge_evaluation = jr\<rparr>"
    and w': "w' = emit (StoreVector (out_run_id dec)) (emit (GenerateReport (out_run_id dec))
            (save_final_answer (out_run_id dec) (final_answer st) w2))"
    by (rule run_returns)
  let ?rid = "out_run_id dec"
  have "[0 ..< MAX_PASSES] \<noteq> []"
    by (simp add: MAX_PASSES_def)
  with pass_loop_last [OF l] obtain tr block answer where
    last: "trace w2 = tr @ [Judge query block answer]" "final_answer st = Some answer"
    by blast
  have runs2: "research_runs w2 = research_runs w1"
    using pass_loop_effect [OF l, of undefined] by simp
  have tr: "trace w' = tr @ [Judge query block answer, GenerateReport ?rid, StoreVector ?rid]"
    using last(1) by (simp add: w' emit_def save_final_answer_def)
  have runs': "research_runs w' = research_runs (save_final_answer ?rid (Some answer) w2)"
    by (simp add: w' emit_def last(2))
  have nonempty: "(\<exists>x \<in> set (research_runs w'). rr_id x = ?rid) \<and>
      (\<forall>x \<in> set (research_runs w'). rr_id x = ?rid \<longrightarrow> rr_final_answer x = Some answer)"
    if "answer \<noteq> []"
  proof -
    have "research_runs w' =
            map (\<lambda>x. if rr_id x = ?rid then x\<lparr>rr_final_answer := Some answer\<rparr> else x)
              (research_runs w1)"
      using that runs' runs2 by (simp add: save_final_answer_def truthy_def)
    then show ?thesis
      using resolver_run_exists [OF d] updated_runs1 [of ?rid "Some answer" "research_runs w1"]
        updated_runs2 [of _ ?rid "Some answer" "research_runs w1"]
      by metis
  qed
  have empty: "research_runs w' = research_runs (snd (research_decomposition_pipeline e query w))"
    if "answer = []"
    using that runs' runs2 d by (simp add: save_final_answer_def truthy_def)
  show ?thesis
    using tr last(2) nonempty empty by (simp add: out)
qed

theorem last_answer_saved_when_nonempty_witness:
  "\<exists>out w'. run (sample_env 1 []) ''q'' empty_world = (Inr out, w') \<and>
      ro_final_answer out = Some ''answer'' \<and>
      (\<exists>x \<in> set (research_runs w'). rr_id x = ro_run_id out) \<and>
      (\<forall>x \<in> set (research_runs w'). rr_id x = ro_run_id out \<longrightarrow>
         rr_final_answer x = Some ''answer'')"
proof -
  have "\<not> isl (fst (run (sample_env 1 []) ''q'' empty_world))"
    by code_simp
  then obtain out w' where r: "run (sample_env 1 []) ''q'' empty_world = (Inr out, w')"
    by (metis isl_def old.sum.exhaust prod.collapse)
  have a: "ro_final_answer out = Some ''answer''"
  proof -
    have "ro_final_answer (projr (fst (run (sample_env 1 []) ''q'' empty_world))) = Some ''answer''"
      by code_simp
    then show ?thesis by (simp add: r)
  qed
  show ?thesis
    using r a last_answer_saved_when_nonempty [OF r] by auto
qed

text \<open>
  C9 as stated fails: the synthesis returns the empty text, the run returns it as its final
  answer, and the field of the Run is still NULL.
\<close>

theorem empty_answer_not_saved_counterexample:
  "(case run empty_answer_env ''q'' empty_world of
      (Inr out, w') \<Rightarrow>
        ro_final_answer out = Some [] \<and> map rr_final_answer (research_runs w') = [None]
    | (Inl err, w') \<Rightarrow> False)"
  by code_simp

section \<open>Summaries are shared across runs\<close>

lemma find_snoc:
  "find P xs = None \<Longrightarrow> P y \<Longrightarrow> find P (xs @ [y]) = Some y"
  by (induction xs) (auto split: if_splits)

lemma find_present:
  assumes "x \<in> set xs" and "P x"
  obtains y where "find P xs = Some y" and "P y" and "y \<in> set xs"
proof (cases "find P xs")
  case None
  then show ?thesis
    using assms by (simp add: find_None_iff)
next
  case (Some y)
  then have "P y" "y \<in> set xs"
    by (auto simp: find_Some_iff)
  with Some show ?thesis
    by (rule that)
qed

text \<open>
  C10. The summarization step looks a question up by its text alone. When two different
  runs each have a sub-question with the same text, the step resolves the text to one row,
  which belongs to a run other than at least one of the two; the summary computed (or
  found) for that row on a first call is stored under the row, and a later call with the
  same question, whatever evidence it brings and whatever the capabilities would answer,
  returns that same summary and leaves the world unchanged.
\<close>

theorem summary_shared_across_runs:
  assumes a: "ra \<in> set (sub_questions w)" "sq_sub_question ra = q" "sq_research_run_id ra = run_a"
    and b: "rb \<in> set (sub_questions w)" "sq_sub_question rb = q" "sq_research_run_id rb = run_b"
    and diff: "run_a \<noteq> run_b"
    and first: "analyze_sub_questions e1 [(q, data_a)] w = (Inr an, w1)"
  shows "\<exists>row s. find_sub_question w q = Some row \<and> find_sub_question w1 q = Some row \<and>
           sq_sub_question row = q \<and>
           (sq_research_run_id row \<noteq> run_a \<or> sq_research_run_id row \<noteq> run_b) \<and>
           find_summary w1 (sq_id row) = Some s \<and>
           an = [(q, \<lparr>summary = sm_summary_json s, an_urls = urls data_a\<rparr>)] \<and>
           analyze_sub_questions e2 [(q, data_b)] w1 =
             (Inr [(q, \<lparr>summary = sm_summary_json s, an_urls = urls data_b\<rparr>)], w1)"
proof -
  from a(1,2) obtain row where row: "find_sub_question w q = Some row" "sq_sub_question row = q"
    unfolding find_sub_question_def
    by (rule find_present [where P = "\<lambda>r. sq_sub_question r = q"]) auto
  have foreign: "sq_research_run_id row \<noteq> run_a \<or> sq_research_run_id row \<noteq> run_b"
    using diff by auto
  have "\<exists>s. find_sub_question w1 q = Some row \<and> find_summary w1 (sq_id row) = Some s \<and>
          an = [(q, \<lparr>summary = sm_summary_json s, an_urls = urls data_a\<rparr>)]"
  proof (cases "find_summary w (sq_id row)")
    case (Some cached)
    with first row(1) have "an = [(q, \<lparr>summary = sm_summary_json cached, an_urls = urls data_a\<rparr>)]"
      and "w1 = w"
      by (simp_all add: analyze_sub_questions_def)
    then show ?thesis
      using row(1) Some by simp
  next
    case None
    show ?thesis
    proof (cases "analyzer_llm e1 (length (trace w)) q (snippets data_a)")
      case nothing: None
      with first row(1) None show ?thesis
        by (simp add: analyze_sub_questions_def Let_def)
    next
      case (Some content)
      let ?row = "\<lparr>sm_id = next_id (map sm_id (sub_question_summaries w)),
                   sm_sub_question_id = sq_id row,
                   sm_summary_json = parse_summary e1 content\<rparr>"
      from first row(1) None Some have
        an: "an = [(q, \<lparr>summary = parse_summary e1 content, an_urls = urls data_a\<rparr>)]"
        and w1: "w1 = insert_summary (sq_id row) (parse_summary e1 content)
                   (emit (Summarize q (snippets data_a)) w)"
        by (simp_all add: analyze_sub_questions_def Let_def)
      have "sub_question_summaries w1 = sub_question_summaries w @ [?row]"
        by (simp add: w1 insert_summary_def emit_def)
      then have "find_summary w1 (sq_id row) = Some ?row"
        using find_snoc [of "\<lambda>s. sm_sub_question_id s = sq_id row" "sub_question_summaries w" ?row]
          None
        by (simp add: find_summary_def)
      moreover have "find_sub_question w1 q = Some row"
        using row(1) by (simp add: w1 find_sub_question_def insert_summary_def emit_def)
      ultimately show ?thesis
        using an by simp
    qed
  qed
  then obtain s where s: "find_sub_question w1 q = Some row" "find_summary w1 (sq_id row) = Some s"
    "an = [(q, \<lparr>summary = sm_summary_json s, an_urls = urls data_a\<rparr>)]"
    by blast
  have "analyze_sub_questions e2 [(q, data_b)] w1 =
             (Inr [(q, \<lparr>summary = sm_summary_json s, an_urls = urls data_b\<rparr>)], w1)"
    using s(1,2) by (simp add: analyze_sub_questions_def)
  then show ?thesis
    using row s foreign by blast
qed

theorem summary_shared_across_runs_witness:
  "\<exists>an w1 row s.
     analyze_sub_questions (sample_env 1 []) [(''a?'', \<lparr>urls = [''http://a''], snippets = ''A''\<rparr>)]
       shared_world = (Inr an, w1) \<and>
     find_sub_question shared_world ''a?'' = Some row \<and> sq_research_run_id row = ''r1'' \<and>
     find_summary w1 (sq_id row) = Some s \<and> sm_summary_json s = [''summary of A''] \<and>
     analyze_sub_questions failing_chains_env [(''a?'', \<lparr>urls = [''http://b''], snippets = ''B''\<rparr>)] w1
       = (Inr [(''a?'', \<lparr>summary = [''summary of A''], an_urls = [''http://b'']\<rparr>)], w1)"
proof -
  let ?ra = "\<lparr>sq_id = 1, sq_research_run_id = ''r1'', sq_sub_question = ''a?'', sq_position = 1\<rparr>"
  let ?rb = "\<lparr>sq_id = 2, sq_research_run_id = ''r2'', sq_sub_question = ''a?'', sq_position = 1\<rparr>"
  let ?da = "\<lparr>urls = [''http://a''], snippets = ''A''\<rparr>"
  let ?db = "\<lparr>urls = [''http://b''], snippets = ''B''\<rparr>"
  have a: "?ra \<in> set (sub_questions shared_world)" "sq_sub_question ?ra = ''a?''"
    "sq_research_run_id ?ra = ''r1''"
    by (simp_all add: shared_world_def)
  have b: "?rb \<in> set (sub_questions shared_world)" "sq_sub_question ?rb = ''a?''"
    "sq_research_run_id ?rb = ''r2''"
    by (simp_all add: shared_world_def)
  have diff: "''r1'' \<noteq> ''r2''"
    by simp
  have "\<not> isl (fst (analyze_sub_questions (sample_env 1 []) [(''a?'', ?da)] shared_world))"
    by code_simp
  then obtain an w1 where
    first: "analyze_sub_questions (sample_env 1 []) [(''a?'', ?da)] shared_world = (Inr an, w1)"
    by (metis isl_def old.sum.exhaust prod.collapse)
  have an: "an = [(''a?'', \<lparr>summary = [''summary of A''], an_urls = [''http://a'']\<rparr>)]"
  proof -
    have "projr (fst (analyze_sub_questions (sample_env 1 []) [(''a?'', ?da)] shared_world))
            = [(''a?'', \<lparr>summary = [''summary of A''], an_urls = [''http://a'']\<rparr>)]"
      by code_simp
    then show ?thesis by (simp add: first)
  qed
  have row: "find_sub_question shared_world ''a?'' = Some ?ra"
    by (simp add: find_sub_question_def shared_world_def)
  from summary_shared_across_runs [OF a b diff first, of failing_chains_env ?db]
  show ?thesis
    using first an row by auto
qed

end
